theory Spec2Isabelle
  imports Main "HOL-Library.Word" "HOL-Library.Sublist"
begin

section \<open>JavaScript string primitives used by the path code\<close>

text \<open>
  \<^verbatim>\<open>path.split('/')\<close>: the pieces between the separators. The empty string gives one
  empty piece, \<^verbatim>\<open>'/'\<close> gives two.
\<close>

fun split :: "char \<Rightarrow> string \<Rightarrow> string list" where
  "split c [] = [[]]"
| "split c (x # xs) =
     (if x = c then [] # split c xs
      else (x # hd (split c xs)) # tl (split c xs))"

text \<open>\<^verbatim>\<open>parts.join('/')\<close>.\<close>

fun join :: "string list \<Rightarrow> string" where
  "join [] = []"
| "join [w] = w"
| "join (w # v # ws) = w @ ''/'' @ join (v # ws)"

text \<open>\<^verbatim>\<open>path.split('/').filter((part) => part.length > 0)\<close>, the expression every path
  function of the handler and of the panel's path utilities starts with.\<close>

definition parts :: "string \<Rightarrow> string list" where
  "parts path = filter (\<lambda>part. length part > 0) (split CHR ''/'' path)"

section \<open>Path algebra\<close>

text \<open>
  \<^verbatim>\<open>
  function getParentPath(path) {
    const parts = path.split('/').filter((part) => part.length > 0);
    if (parts.length <= 1) return '/';
    return '/' + parts.slice(0, -1).join('/');
  }
  function getBasename(path) {
    const parts = path.split('/').filter((part) => part.length > 0);
    return parts[parts.length - 1] || '';
  }
  \<close>
  \<^verbatim>\<open>parts[parts.length - 1]\<close> is \<^verbatim>\<open>undefined\<close> on the empty array, which
  \<^verbatim>\<open>|| ''\<close> turns into the empty string.
\<close>

definition getParentPath :: "string \<Rightarrow> string" where
  "getParentPath path =
     (let ps = parts path in
      if length ps \<le> 1 then ''/'' else ''/'' @ join (butlast ps))"

definition getBasename :: "string \<Rightarrow> string" where
  "getBasename path =
     (let ps = parts path in
      if ps = [] then '''' else if last ps = '''' then '''' else last ps)"

text \<open>The panel's path utilities (\<^verbatim>\<open>normalize\<close>, \<^verbatim>\<open>dirname\<close>, \<^verbatim>\<open>basename\<close>).\<close>

definition normalize :: "string \<Rightarrow> string" where
  "normalize path = ''/'' @ join (parts path)"

definition dirname :: "string \<Rightarrow> string" where
  "dirname path =
     (let normalized = normalize path; ps = parts normalized in
      if length ps \<le> 1 then ''/'' else ''/'' @ join (butlast ps))"

text \<open>\<^verbatim>\<open>name.endsWith(ext)\<close> and \<^verbatim>\<open>name.slice(0, -ext.length)\<close>; the slice is only
  taken when \<^verbatim>\<open>ext\<close> is a non-empty suffix of \<^verbatim>\<open>name\<close>.\<close>

definition endsWith :: "string \<Rightarrow> string \<Rightarrow> bool" where
  "endsWith name ext \<longleftrightarrow> length ext \<le> length name \<and> drop (length name - length ext) name = ext"

definition basename :: "string \<Rightarrow> string option \<Rightarrow> string" where
  "basename path ext =
     (let normalized = normalize path; ps = parts normalized;
          name = (if ps = [] then '''' else if last ps = '''' then '''' else last ps) in
      case ext of
        None \<Rightarrow> name
      | Some e \<Rightarrow> if e \<noteq> '''' \<and> endsWith name e then take (length name - length e) name else name)"

definition isRoot :: "string \<Rightarrow> bool" where
  "isRoot path \<longleftrightarrow> normalize path = ''/''"

section \<open>Exceptions\<close>

text \<open>
  JavaScript can throw any value. What is thrown here is an object with a \<^verbatim>\<open>name\<close>, a
  \<^verbatim>\<open>message\<close> and possibly a \<^verbatim>\<open>stack\<close> (a \<^verbatim>\<open>DOMException\<close> of the file
  system API, a \<^verbatim>\<open>TypeError\<close>, the handler's own \<^verbatim>\<open>new Error('Invalid file path')\<close>),
  or a string, number or boolean, given by the string \<^verbatim>\<open>String(e)\<close> makes of it, or
  \<^verbatim>\<open>null\<close>, or \<^verbatim>\<open>undefined\<close>. The handler runs in the page, whose scripts decide
  what \<^verbatim>\<open>navigator.storage\<close> rejects with, so none of these is excluded.

  The \<^verbatim>\<open>stack\<close> of an error the engine constructs starts with the line
  \<^verbatim>\<open>name: message\<close>, followed by the frames of the place it was constructed at. Only
  that first line is kept: \<open>V8Stack header\<close> stands for a stack with this header, whatever
  its frames. An exception the file system rejects a promise with carries no stack.
\<close>

datatype stack = V8Stack string

datatype exn =
    ErrorObject (exn_name: string) (exn_message: string) (exn_stack: "stack option")
  | Primitive string
  | ThrownNull
  | ThrownUndefined

definition mk_exn :: "string \<Rightarrow> string \<Rightarrow> exn" where
  "mk_exn nm msg = ErrorObject nm msg None"

definition v8_error :: "string \<Rightarrow> string \<Rightarrow> exn" where
  "v8_error nm msg = ErrorObject nm msg (Some (V8Stack (nm @ '': '' @ msg)))"

definition NotFoundError :: exn where
  "NotFoundError = mk_exn ''NotFoundError''
     ''A requested file or directory could not be found at the time an operation was processed.''"

definition TypeMismatchError :: exn where
  "TypeMismatchError = mk_exn ''TypeMismatchError''
     ''The path supplied exists, but was not an entry of requested type.''"

definition InvalidModificationError :: exn where
  "InvalidModificationError = mk_exn ''InvalidModificationError''
     ''The object can not be modified in this way.''"

definition NameTypeError :: exn where
  "NameTypeError = v8_error ''TypeError'' ''Name is not allowed.''"

definition InvalidFilePath :: exn where
  "InvalidFilePath = v8_error ''Error'' ''Invalid file path''"

text \<open>Reading a property of \<^verbatim>\<open>null\<close> or \<^verbatim>\<open>undefined\<close> throws.\<close>

definition cannot_read :: "string \<Rightarrow> string \<Rightarrow> exn" where
  "cannot_read what property =
     v8_error ''TypeError''
       (''Cannot read properties of '' @ what @ '' (reading '' @ [CHR 0x27] @ property @ [CHR 0x27] @ '')'')"

text \<open>\<^verbatim>\<open>String(e)\<close>; on an error object it is \<^verbatim>\<open>Error.prototype.toString\<close>.\<close>

fun String_of :: "exn \<Rightarrow> string" where
  "String_of (ErrorObject nm msg st) =
     (if nm = '''' then msg
      else if msg = '''' then nm
      else nm @ '': '' @ msg)"
| "String_of (Primitive p) = p"
| "String_of ThrownNull = ''null''"
| "String_of ThrownUndefined = ''undefined''"

section \<open>The origin private file system\<close>

text \<open>
  The store the handler works on is the browser's, reached through
  \<^verbatim>\<open>navigator.storage.getDirectory()\<close>. It is modelled as the file system standard
  describes it: every entry is found by its locator, the list of names from the root;
  an entry is a directory or a file holding bytes. A handle is the locator of its entry.
  The store keeps the entries in creation order. The order in which a directory lists
  its children is the browser's: it is a parameter of the model (\<open>listing_rank\<close> below).
  No other script touches the store while a command runs, nothing is locked and the
  quota is never reached. The time stamp of a file (a clock reading) and the MIME
  type looked up from the file extension are left out of what \<^verbatim>\<open>stat\<close> and
  \<^verbatim>\<open>list\<close> report.
\<close>

type_synonym byte = "8 word"

datatype kind = KFile | KDirectory

datatype entry = FileE "byte list" | DirE

type_synonym locator = "string list"

type_synonym store = "(locator \<times> entry) list"

type_synonym 'a result = "(exn + 'a) \<times> store"

definition node_at :: "store \<Rightarrow> locator \<Rightarrow> entry option" where
  "node_at s p = (if p = [] then Some DirE else map_of s p)"

fun kind_of :: "entry \<Rightarrow> kind" where
  "kind_of (FileE _) = KFile"
| "kind_of DirE = KDirectory"

text \<open>A valid file name: not empty, not \<^verbatim>\<open>.\<close> or \<^verbatim>\<open>..\<close>, without a path separator;
  the browser takes both the slash and the backslash (character 0x5C) for one.\<close>

definition valid_name :: "string \<Rightarrow> bool" where
  "valid_name n \<longleftrightarrow>
     n \<noteq> '''' \<and> n \<noteq> ''.'' \<and> n \<noteq> ''..'' \<and> CHR ''/'' \<notin> set n \<and> CHR 0x5C \<notin> set n"

text \<open>
  What the page offers besides the store: whether the storage API is there, what
  opening the root is rejected with (if it is), the storage estimate, and the order of
  a directory listing. The children of a directory are listed by ascending
  \<open>listing_rank\<close> of their locators, children of equal rank in creation order: every
  order of the children is the listing for some rank.
\<close>

record platform =
  storage_in_navigator :: bool
  getDirectory_in_storage :: bool
  getDirectory_error :: "exn option"
  storage_estimate :: "exn + (nat option \<times> nat option)"
  listing_rank :: "locator \<Rightarrow> nat"

text \<open>\<^verbatim>\<open>dir.getDirectoryHandle(name, {create})\<close>.\<close>

definition dirGetDirectoryHandle :: "store \<Rightarrow> locator \<Rightarrow> string \<Rightarrow> bool \<Rightarrow> locator result" where
  "dirGetDirectoryHandle s dir n create =
     (if \<not> valid_name n then (Inl NameTypeError, s)
      else if node_at s dir \<noteq> Some DirE then (Inl NotFoundError, s)
      else case map_of s (dir @ [n]) of
             Some DirE \<Rightarrow> (Inr (dir @ [n]), s)
           | Some (FileE _) \<Rightarrow> (Inl TypeMismatchError, s)
           | None \<Rightarrow> if create then (Inr (dir @ [n]), s @ [(dir @ [n], DirE)])
                     else (Inl NotFoundError, s))"

text \<open>\<^verbatim>\<open>dir.getFileHandle(name, {create})\<close>; a created file is empty.\<close>

definition dirGetFileHandle :: "store \<Rightarrow> locator \<Rightarrow> string \<Rightarrow> bool \<Rightarrow> locator result" where
  "dirGetFileHandle s dir n create =
     (if \<not> valid_name n then (Inl NameTypeError, s)
      else if node_at s dir \<noteq> Some DirE then (Inl NotFoundError, s)
      else case map_of s (dir @ [n]) of
             Some (FileE _) \<Rightarrow> (Inr (dir @ [n]), s)
           | Some DirE \<Rightarrow> (Inl TypeMismatchError, s)
           | None \<Rightarrow> if create then (Inr (dir @ [n]), s @ [(dir @ [n], FileE [])])
                     else (Inl NotFoundError, s))"

text \<open>\<^verbatim>\<open>dir.entries()\<close>: the names and kinds of the children, as the directory is when
  the iteration starts.\<close>

definition dirEntries :: "platform \<Rightarrow> store \<Rightarrow> locator \<Rightarrow> exn + (string \<times> kind) list" where
  "dirEntries pf s dir =
     (if node_at s dir \<noteq> Some DirE then Inl NotFoundError
      else Inr (sort_key (\<lambda>(n, k). listing_rank pf (dir @ [n]))
                  (map (\<lambda>(p, e). (last p, kind_of e))
                     (filter (\<lambda>(p, e). p \<noteq> [] \<and> butlast p = dir) s))))"

text \<open>\<^verbatim>\<open>dir.removeEntry(name, {recursive})\<close>: a directory that has children is only
  removed when \<^verbatim>\<open>recursive\<close> is set, and then with everything below it.\<close>

definition dirRemoveEntry :: "store \<Rightarrow> locator \<Rightarrow> string \<Rightarrow> bool \<Rightarrow> unit result" where
  "dirRemoveEntry s dir n recursive =
     (if \<not> valid_name n then (Inl NameTypeError, s)
      else if node_at s dir \<noteq> Some DirE then (Inl NotFoundError, s)
      else case map_of s (dir @ [n]) of
             None \<Rightarrow> (Inl NotFoundError, s)
           | Some e \<Rightarrow>
               if \<not> recursive \<and> list_ex (\<lambda>(p, e). strict_prefix (dir @ [n]) p) s
               then (Inl InvalidModificationError, s)
               else (Inr (), filter (\<lambda>(p, e). \<not> prefix (dir @ [n]) p) s))"

text \<open>\<^verbatim>\<open>handle.getFile()\<close>: the bytes of the file as they are now.\<close>

definition fileGetFile :: "store \<Rightarrow> locator \<Rightarrow> exn + byte list" where
  "fileGetFile s h =
     (case map_of s h of Some (FileE bs) \<Rightarrow> Inr bs | _ \<Rightarrow> Inl NotFoundError)"

text \<open>\<^verbatim>\<open>handle.createWritable()\<close>, one \<^verbatim>\<open>write(data)\<close> and \<^verbatim>\<open>close()\<close>: the stream
  starts empty, and closing it replaces the content of the file by what was written.\<close>

definition fileWrite :: "store \<Rightarrow> locator \<Rightarrow> byte list \<Rightarrow> unit result" where
  "fileWrite s h bs =
     (case map_of s h of
        Some (FileE _) \<Rightarrow> (Inr (), map (\<lambda>(p, e). if p = h then (p, FileE bs) else (p, e)) s)
      | _ \<Rightarrow> (Inl NotFoundError, s))"

text \<open>\<^verbatim>\<open>blob.slice(0, end)\<close>: a negative end counts from the end of the blob.\<close>

definition blob_slice0 :: "byte list \<Rightarrow> int \<Rightarrow> byte list" where
  "blob_slice0 bs e =
     (let size = int (length bs);
          relativeEnd = (if e < 0 then max (size + e) 0 else min e size)
      in take (nat relativeEnd) bs)"

section \<open>Text and bytes\<close>

text \<open>
  A JavaScript string is a sequence of 16-bit code units. Writing a string to a stream
  encodes it as UTF-8, after a code unit that is half of no surrogate pair has become
  U+FFFD. \<^verbatim>\<open>blob.text()\<close> decodes UTF-8, dropping one leading byte order mark and
  putting U+FFFD where the bytes are not well formed; in the browser the extension runs
  in, a blob that starts with the UTF-16 byte order mark (\<open>FF FE\<close> or \<open>FE FF\<close>) is
  decoded as UTF-16 instead. The coders work on code points, which are natural numbers
  here.
\<close>

type_synonym jsstring = "16 word list"

definition is_lead :: "nat \<Rightarrow> bool" where
  "is_lead c \<longleftrightarrow> 0xD800 \<le> c \<and> c \<le> 0xDBFF"

definition is_trail :: "nat \<Rightarrow> bool" where
  "is_trail c \<longleftrightarrow> 0xDC00 \<le> c \<and> c \<le> 0xDFFF"

text \<open>Code units to scalar values: a surrogate pair is one code point, a lone
  surrogate is replaced.\<close>

fun to_scalars :: "nat list \<Rightarrow> nat list" where
  "to_scalars [] = []"
| "to_scalars [c] = (if is_lead c \<or> is_trail c then [0xFFFD] else [c])"
| "to_scalars (c # d # r) =
     (if is_lead c then
        (if is_trail d then (0x10000 + (c - 0xD800) * 0x400 + (d - 0xDC00)) # to_scalars r
         else 0xFFFD # to_scalars (d # r))
      else if is_trail c then 0xFFFD # to_scalars (d # r)
      else c # to_scalars (d # r))"

text \<open>Scalar values back to code units.\<close>

fun of_scalar :: "nat \<Rightarrow> nat list" where
  "of_scalar c =
     (if c < 0x10000 then [c]
      else [0xD800 + (c - 0x10000) div 0x400, 0xDC00 + (c - 0x10000) mod 0x400])"

text \<open>The UTF-8 encoder: one to four bytes for a scalar value.\<close>

fun utf8_encode_scalar :: "nat \<Rightarrow> nat list" where
  "utf8_encode_scalar c =
     (if c < 0x80 then [c]
      else if c < 0x800 then [0xC0 + c div 0x40, 0x80 + c mod 0x40]
      else if c < 0x10000 then
        [0xE0 + c div 0x1000, 0x80 + (c div 0x40) mod 0x40, 0x80 + c mod 0x40]
      else
        [0xF0 + c div 0x40000, 0x80 + (c div 0x1000) mod 0x40,
         0x80 + (c div 0x40) mod 0x40, 0x80 + c mod 0x40])"

text \<open>
  The UTF-8 decoder of the encoding standard, run over the bytes. Its state is the code
  point collected so far, the number of continuation bytes still expected (bytes needed
  minus bytes seen) and the bounds for the next byte. A byte outside the bounds is an
  error and is read again in the initial state; an input that ends inside a sequence is
  an error.
\<close>

function utf8_decode_run :: "nat \<Rightarrow> nat \<Rightarrow> nat \<Rightarrow> nat \<Rightarrow> nat list \<Rightarrow> nat list" where
  "utf8_decode_run cp rem lo hi [] = (if rem \<noteq> 0 then [0xFFFD] else [])"
| "utf8_decode_run cp rem lo hi (b # bs) =
     (if rem = 0 then
        (if b \<le> 0x7F then b # utf8_decode_run 0 0 0x80 0xBF bs
         else if 0xC2 \<le> b \<and> b \<le> 0xDF then utf8_decode_run (b mod 0x20) 1 0x80 0xBF bs
         else if 0xE0 \<le> b \<and> b \<le> 0xEF then
           utf8_decode_run (b mod 0x10) 2
             (if b = 0xE0 then 0xA0 else 0x80) (if b = 0xED then 0x9F else 0xBF) bs
         else if 0xF0 \<le> b \<and> b \<le> 0xF4 then
           utf8_decode_run (b mod 0x8) 3
             (if b = 0xF0 then 0x90 else 0x80) (if b = 0xF4 then 0x8F else 0xBF) bs
         else 0xFFFD # utf8_decode_run 0 0 0x80 0xBF bs)
      else if b < lo \<or> hi < b then 0xFFFD # utf8_decode_run 0 0 0x80 0xBF (b # bs)
      else if rem = 1 then (cp * 0x40 + b mod 0x40) # utf8_decode_run 0 0 0x80 0xBF bs
      else utf8_decode_run (cp * 0x40 + b mod 0x40) (rem - 1) 0x80 0xBF bs)"
  by pat_completeness auto
termination
  by (relation "measure (\<lambda>(cp, rem, lo, hi, bs). 2 * length bs + (if rem = 0 then 0 else 1))") auto

definition utf8_encode :: "jsstring \<Rightarrow> byte list" where
  "utf8_encode text =
     map of_nat (concat (map utf8_encode_scalar (to_scalars (map unat text))))"

definition strip_bom :: "nat list \<Rightarrow> nat list" where
  "strip_bom bs = (if take 3 bs = [0xEF, 0xBB, 0xBF] then drop 3 bs else bs)"

definition utf8_decode :: "byte list \<Rightarrow> jsstring" where
  "utf8_decode bs =
     map of_nat (concat (map of_scalar (utf8_decode_run 0 0 0x80 0xBF (strip_bom (map unat bs)))))"

text \<open>
  The UTF-16 decoder of the encoding standard, for big-endian input when \<open>be\<close> holds. Its
  state is the lead surrogate it has seen, if any. Two bytes make a code unit; a trail
  surrogate after a lead gives one code point, any other code unit after a lead is an
  error and is read again; a single byte left at the end is an error, and so is a lead
  surrogate.
\<close>

function utf16_decode_run :: "bool \<Rightarrow> nat option \<Rightarrow> nat list \<Rightarrow> nat list" where
  "utf16_decode_run be ls [] = (if ls \<noteq> None then [0xFFFD] else [])"
| "utf16_decode_run be ls [b] = [0xFFFD]"
| "utf16_decode_run be ls (b1 # b2 # bs) =
     (let unit = (if be then b1 * 0x100 + b2 else b2 * 0x100 + b1) in
      case ls of
        Some lead \<Rightarrow>
          if is_trail unit then
            (0x10000 + (lead - 0xD800) * 0x400 + (unit - 0xDC00)) # utf16_decode_run be None bs
          else 0xFFFD # utf16_decode_run be None (b1 # b2 # bs)
      | None \<Rightarrow>
          if is_lead unit then utf16_decode_run be (Some unit) bs
          else if is_trail unit then 0xFFFD # utf16_decode_run be None bs
          else unit # utf16_decode_run be None bs)"
  by pat_completeness auto
termination
  by (relation "measure (\<lambda>(be, ls, bs). 2 * length bs + (if ls = None then 0 else 1))") auto

definition utf16_decode :: "bool \<Rightarrow> nat list \<Rightarrow> jsstring" where
  "utf16_decode be bs = map of_nat (concat (map of_scalar (utf16_decode_run be None bs)))"

text \<open>\<^verbatim>\<open>blob.text()\<close>: the byte order mark, when there is one, chooses the decoder and
  is dropped.\<close>

definition blob_text :: "byte list \<Rightarrow> jsstring" where
  "blob_text bs =
     (if take 2 (map unat bs) = [0xFF, 0xFE] then utf16_decode False (drop 2 (map unat bs))
      else if take 2 (map unat bs) = [0xFE, 0xFF] then utf16_decode True (drop 2 (map unat bs))
      else utf8_decode bs)"

text \<open>
  Base64. \<^verbatim>\<open>readBase64\<close> turns the bytes into a string of characters below 256 and
  calls \<^verbatim>\<open>btoa\<close> on it; \<^verbatim>\<open>writeBase64\<close> calls \<^verbatim>\<open>atob\<close> and reads the character
  codes back as bytes. \<^verbatim>\<open>atob\<close> drops ASCII white space, accepts the padding when the
  length is a multiple of four, and throws on any other character and on a length that
  leaves one character over.
\<close>

definition base64_alphabet :: string where
  "base64_alphabet = ''ABCDEFGHIJKLMNOPQRSTUVWXYZabcdefghijklmnopqrstuvwxyz0123456789+/''"

fun btoa :: "nat list \<Rightarrow> string" where
  "btoa [] = []"
| "btoa [a] =
     [base64_alphabet ! (a div 4), base64_alphabet ! ((a mod 4) * 16), CHR ''='', CHR ''='']"
| "btoa [a, b] =
     [base64_alphabet ! (a div 4), base64_alphabet ! ((a mod 4) * 16 + b div 16),
      base64_alphabet ! ((b mod 16) * 4), CHR ''='']"
| "btoa (a # b # c # r) =
     [base64_alphabet ! (a div 4), base64_alphabet ! ((a mod 4) * 16 + b div 16),
      base64_alphabet ! ((b mod 16) * 4 + c div 64), base64_alphabet ! (c mod 64)] @ btoa r"

definition InvalidCharacterError :: exn where
  "InvalidCharacterError = mk_exn ''InvalidCharacterError''
     ''Failed to execute 'atob' on 'Window': The string to be decoded is not correctly encoded.''"

fun index_of :: "char \<Rightarrow> string \<Rightarrow> nat option" where
  "index_of c [] = None"
| "index_of c (x # xs) = (if c = x then Some 0 else map_option Suc (index_of c xs))"

fun sextets :: "string \<Rightarrow> nat list option" where
  "sextets [] = Some []"
| "sextets (c # cs) =
     (case index_of c base64_alphabet of
        None \<Rightarrow> None
      | Some i \<Rightarrow> map_option ((#) i) (sextets cs))"

fun from_sextets :: "nat list \<Rightarrow> nat list" where
  "from_sextets (a # b # c # d # r) =
     [a * 4 + b div 16, (b mod 16) * 16 + c div 4, (c mod 4) * 64 + d] @ from_sextets r"
| "from_sextets [a, b, c] = [a * 4 + b div 16, (b mod 16) * 16 + c div 4]"
| "from_sextets [a, b] = [a * 4 + b div 16]"
| "from_sextets _ = []"

definition strip_padding :: "string \<Rightarrow> string" where
  "strip_padding d =
     (if length d mod 4 = 0 \<and> d \<noteq> [] \<and> last d = CHR ''='' then
        (if butlast d \<noteq> [] \<and> last (butlast d) = CHR ''='' then butlast (butlast d)
         else butlast d)
      else d)"

definition atob :: "string \<Rightarrow> exn + nat list" where
  "atob base64 =
     (let d = strip_padding
                (filter (\<lambda>c. c \<notin> {CHR 0x09, CHR 0x0A, CHR 0x0C, CHR 0x0D, CHR 0x20}) base64)
      in if length d mod 4 = 1 then Inl InvalidCharacterError
         else case sextets d of
                None \<Rightarrow> Inl InvalidCharacterError
              | Some xs \<Rightarrow> Inr (from_sextets xs))"

section \<open>The command handler\<close>

text \<open>
  The functions below are the ones the background script defines inside the page. Each
  takes the store and returns the outcome together with the store it leaves: an
  exception does not undo the directories created before it was thrown.
\<close>

definition getDirectory :: "platform \<Rightarrow> exn + locator" where
  "getDirectory pf =
     (if \<not> storage_in_navigator pf then
        Inl (cannot_read ''undefined'' ''getDirectory'')
      else if \<not> getDirectory_in_storage pf then
        Inl (v8_error ''TypeError'' ''navigator.storage.getDirectory is not a function'')
      else case getDirectory_error pf of Some e \<Rightarrow> Inl e | None \<Rightarrow> Inr [])"

text \<open>The loop \<^verbatim>\<open>for (const part of parts) current = await current.getDirectoryHandle(part, {create})\<close>.\<close>

fun walk_dirs :: "store \<Rightarrow> locator \<Rightarrow> string list \<Rightarrow> bool \<Rightarrow> locator result" where
  "walk_dirs s current [] create = (Inr current, s)"
| "walk_dirs s current (part # rest) create =
     (case dirGetDirectoryHandle s current part create of
        (Inl e, s') \<Rightarrow> (Inl e, s')
      | (Inr h, s') \<Rightarrow> walk_dirs s' h rest create)"

definition getDirectoryHandle :: "store \<Rightarrow> locator \<Rightarrow> string \<Rightarrow> bool \<Rightarrow> locator result" where
  "getDirectoryHandle s root path create =
     (if path = ''/'' \<or> path = '''' then (Inr root, s)
      else walk_dirs s root (parts path) create)"

definition getFileHandle :: "store \<Rightarrow> locator \<Rightarrow> string \<Rightarrow> bool \<Rightarrow> locator result" where
  "getFileHandle s root path create =
     (let ps = parts path in
      if length ps = 0 then (Inl InvalidFilePath, s)
      else case walk_dirs s root (butlast ps) create of
             (Inl e, s') \<Rightarrow> (Inl e, s')
           | (Inr current, s') \<Rightarrow> dirGetFileHandle s' current (last ps) create)"

text \<open>\<^verbatim>\<open>getHandleAtPath(root, path, options?)\<close>: the two options are given separately,
  \<open>None\<close> for one that is left out. The handle comes with its \<^verbatim>\<open>kind\<close>.\<close>

definition getHandleAtPath ::
  "store \<Rightarrow> locator \<Rightarrow> string \<Rightarrow> bool option \<Rightarrow> bool option \<Rightarrow> (locator \<times> kind) result" where
  "getHandleAtPath s root path create isFile =
     (let ps = parts path;
          cr = (case create of Some b \<Rightarrow> b | None \<Rightarrow> False) in
      if length ps = 0 then (Inr (root, KDirectory), s)
      else case walk_dirs s root (butlast ps) cr of
             (Inl e, s') \<Rightarrow> (Inl e, s')
           | (Inr current, s') \<Rightarrow>
               (let lastName = last ps in
                if isFile = Some True then
                  (case dirGetFileHandle s' current lastName cr of
                     (Inl e, s'') \<Rightarrow> (Inl e, s'')
                   | (Inr h, s'') \<Rightarrow> (Inr (h, KFile), s''))
                else
                  (case dirGetDirectoryHandle s' current lastName cr of
                     (Inr h, s'') \<Rightarrow> (Inr (h, KDirectory), s'')
                   | (Inl _, s'') \<Rightarrow>
                       (case dirGetFileHandle s'' current lastName False of
                          (Inl e, s3) \<Rightarrow> (Inl e, s3)
                        | (Inr h, s3) \<Rightarrow> (Inr (h, KFile), s3)))))"

text \<open>
  \<^verbatim>\<open>isAvailable()\<close>. Its \<^verbatim>\<open>catch\<close> block builds the reason as
  \<^verbatim>\<open>'Cannot access OPFS: ' + (err.message || e)\<close>, which itself throws when
  \<^verbatim>\<open>null\<close> or \<^verbatim>\<open>undefined\<close> was caught.
\<close>

definition isAvailable :: "platform \<Rightarrow> exn + (bool \<times> string option)" where
  "isAvailable pf =
     (if \<not> storage_in_navigator pf then Inr (False, Some ''Storage API not available'')
      else if \<not> getDirectory_in_storage pf then Inr (False, Some ''OPFS not supported'')
      else case getDirectory pf of
             Inr _ \<Rightarrow> Inr (True, None)
           | Inl (ErrorObject nm msg st) \<Rightarrow>
               Inr (False, Some (''Cannot access OPFS: '' @
                  (if msg \<noteq> '''' then msg else String_of (ErrorObject nm msg st))))
           | Inl (Primitive p) \<Rightarrow> Inr (False, Some (''Cannot access OPFS: '' @ p))
           | Inl ThrownNull \<Rightarrow> Inl (cannot_read ''null'' ''message'')
           | Inl ThrownUndefined \<Rightarrow> Inl (cannot_read ''undefined'' ''message''))"

definition estimate :: "platform \<Rightarrow> exn + (nat \<times> nat)" where
  "estimate pf =
     (case storage_estimate pf of
        Inl e \<Rightarrow> Inl e
      | Inr (usage, quota) \<Rightarrow>
          Inr (case usage of Some u \<Rightarrow> u | None \<Rightarrow> 0, case quota of Some q \<Rightarrow> q | None \<Rightarrow> 0))"

datatype FSEntry = FSEntry
  (entry_name: string)
  (entry_path: string)
  (entry_kind: kind)
  (entry_size: "nat option")
  (entry_children: "FSEntry list option")

text \<open>
  \<^verbatim>\<open>list(path, depth, includeFiles, includeDirs)\<close>. \<open>list_loop\<close> is the body of its
  \<^verbatim>\<open>for await (const [name, handle] of dir.entries())\<close>, with the directory handle, the
  entries still to come and the \<^verbatim>\<open>entries\<close> array built so far.
\<close>

function list_dir :: "platform \<Rightarrow> store \<Rightarrow> string \<Rightarrow> int \<Rightarrow> bool \<Rightarrow> bool \<Rightarrow> exn + FSEntry list"
  and list_loop :: "platform \<Rightarrow> store \<Rightarrow> string \<Rightarrow> int \<Rightarrow> bool \<Rightarrow> bool \<Rightarrow> locator \<Rightarrow>
                    (string \<times> kind) list \<Rightarrow> FSEntry list \<Rightarrow> exn + FSEntry list" where
  "list_dir pf s path depth includeFiles includeDirs =
     (case getDirectory pf of
        Inl e \<Rightarrow> Inl e
      | Inr root \<Rightarrow>
          (case getDirectoryHandle s root path False of
             (Inl e, _) \<Rightarrow> Inl e
           | (Inr dir, _) \<Rightarrow>
               (case dirEntries pf s dir of
                  Inl e \<Rightarrow> Inl e
                | Inr ents \<Rightarrow> list_loop pf s path depth includeFiles includeDirs dir ents [])))"
| "list_loop pf s path depth includeFiles includeDirs dir [] entries = Inr entries"
| "list_loop pf s path depth includeFiles includeDirs dir ((name, kind) # rest) entries =
     (let entryPath = (if path = ''/'' then ''/'' @ name else path @ ''/'' @ name) in
      if kind = KFile \<and> \<not> includeFiles then
        list_loop pf s path depth includeFiles includeDirs dir rest entries
      else if kind = KDirectory \<and> \<not> includeDirs then
        list_loop pf s path depth includeFiles includeDirs dir rest entries
      else if kind = KFile then
        (case fileGetFile s (dir @ [name]) of
           Inr file \<Rightarrow>
             list_loop pf s path depth includeFiles includeDirs dir rest
               (entries @ [FSEntry name entryPath kind (Some (length file)) None])
         | Inl _ \<Rightarrow>
             list_loop pf s path depth includeFiles includeDirs dir rest
               (entries @ [FSEntry name entryPath kind None None]))
      else if kind = KDirectory \<and> depth > 1 then
        (case list_dir pf s entryPath (depth - 1) includeFiles includeDirs of
           Inl e \<Rightarrow> Inl e
         | Inr children \<Rightarrow>
             list_loop pf s path depth includeFiles includeDirs dir rest
               (entries @ [FSEntry name entryPath kind None (Some children)]))
      else
        list_loop pf s path depth includeFiles includeDirs dir rest
          (entries @ [FSEntry name entryPath kind None None]))"
  by pat_completeness auto
termination
  by (relation "inv_image (less_than <*lex*> less_than <*lex*> less_than)
        (\<lambda>x. case x of
           Inl (pf, s, path, depth, iF, iD) \<Rightarrow> (nat depth, 1::nat, 0::nat)
         | Inr (pf, s, path, depth, iF, iD, dir, ents, entries) \<Rightarrow> (nat depth, 0, length ents))")
     auto

declare list_dir.simps [simp del]

text \<open>\<^verbatim>\<open>stat(path)\<close>: the kind and the size.\<close>

definition stat :: "platform \<Rightarrow> store \<Rightarrow> string \<Rightarrow> (kind \<times> nat) result" where
  "stat pf s path =
     (case getDirectory pf of
        Inl e \<Rightarrow> (Inl e, s)
      | Inr root \<Rightarrow>
          (case getHandleAtPath s root path None None of
             (Inl e, s') \<Rightarrow> (Inl e, s')
           | (Inr (h, KDirectory), s') \<Rightarrow> (Inr (KDirectory, 0), s')
           | (Inr (h, KFile), s') \<Rightarrow>
               (case fileGetFile s' h of
                  Inl e \<Rightarrow> (Inl e, s')
                | Inr file \<Rightarrow> (Inr (KFile, length file), s'))))"

text \<open>
  \<^verbatim>\<open>
  const max = maxBytes || 2 * 1024 * 1024;
  const truncated = file.size > max;
  const blob = truncated ? file.slice(0, max) : file;
  \<close>
  \<^verbatim>\<open>maxBytes\<close> is a whole number or left out; \<^verbatim>\<open>||\<close> takes the default for both
  \<^verbatim>\<open>undefined\<close> and \<open>0\<close>.
\<close>

definition or_default :: "int option \<Rightarrow> int \<Rightarrow> int" where
  "or_default maxBytes d = (case maxBytes of None \<Rightarrow> d | Some m \<Rightarrow> if m = 0 then d else m)"

definition readText :: "platform \<Rightarrow> store \<Rightarrow> string \<Rightarrow> int option \<Rightarrow> (jsstring \<times> bool) result" where
  "readText pf s path maxBytes =
     (case getDirectory pf of
        Inl e \<Rightarrow> (Inl e, s)
      | Inr root \<Rightarrow>
          (case getFileHandle s root path False of
             (Inl e, s') \<Rightarrow> (Inl e, s')
           | (Inr handle, s') \<Rightarrow>
               (case fileGetFile s' handle of
                  Inl e \<Rightarrow> (Inl e, s')
                | Inr file \<Rightarrow>
                    (let max = or_default maxBytes (2 * 1024 * 1024);
                         truncated = (int (length file) > max);
                         blob = (if truncated then blob_slice0 file max else file)
                     in (Inr (blob_text blob, truncated), s')))))"

definition writeText :: "platform \<Rightarrow> store \<Rightarrow> string \<Rightarrow> jsstring \<Rightarrow> unit result" where
  "writeText pf s path text =
     (case getDirectory pf of
        Inl e \<Rightarrow> (Inl e, s)
      | Inr root \<Rightarrow>
          (case getFileHandle s root path True of
             (Inl e, s') \<Rightarrow> (Inl e, s')
           | (Inr handle, s') \<Rightarrow> fileWrite s' handle (utf8_encode text)))"

definition readBase64 :: "platform \<Rightarrow> store \<Rightarrow> string \<Rightarrow> int option \<Rightarrow> (string \<times> bool) result" where
  "readBase64 pf s path maxBytes =
     (case getDirectory pf of
        Inl e \<Rightarrow> (Inl e, s)
      | Inr root \<Rightarrow>
          (case getFileHandle s root path False of
             (Inl e, s') \<Rightarrow> (Inl e, s')
           | (Inr handle, s') \<Rightarrow>
               (case fileGetFile s' handle of
                  Inl e \<Rightarrow> (Inl e, s')
                | Inr file \<Rightarrow>
                    (let max = or_default maxBytes (10 * 1024 * 1024);
                         truncated = (int (length file) > max);
                         blob = (if truncated then blob_slice0 file max else file)
                     in (Inr (btoa (map unat blob), truncated), s')))))"

definition writeBase64 :: "platform \<Rightarrow> store \<Rightarrow> string \<Rightarrow> string \<Rightarrow> unit result" where
  "writeBase64 pf s path base64 =
     (case getDirectory pf of
        Inl e \<Rightarrow> (Inl e, s)
      | Inr root \<Rightarrow>
          (case getFileHandle s root path True of
             (Inl e, s') \<Rightarrow> (Inl e, s')
           | (Inr handle, s') \<Rightarrow>
               (case atob base64 of
                  Inl e \<Rightarrow> (Inl e, s')
                | Inr binary \<Rightarrow> fileWrite s' handle (map of_nat binary))))"

definition mkdir :: "platform \<Rightarrow> store \<Rightarrow> string \<Rightarrow> unit result" where
  "mkdir pf s path =
     (case getDirectory pf of
        Inl e \<Rightarrow> (Inl e, s)
      | Inr root \<Rightarrow>
          (case getDirectoryHandle s root path True of
             (Inl e, s') \<Rightarrow> (Inl e, s')
           | (Inr _, s') \<Rightarrow> (Inr (), s')))"

definition createFile :: "platform \<Rightarrow> store \<Rightarrow> string \<Rightarrow> unit result" where
  "createFile pf s path =
     (case getDirectory pf of
        Inl e \<Rightarrow> (Inl e, s)
      | Inr root \<Rightarrow>
          (case getFileHandle s root path True of
             (Inl e, s') \<Rightarrow> (Inl e, s')
           | (Inr _, s') \<Rightarrow> (Inr (), s')))"

definition deleteEntry :: "platform \<Rightarrow> store \<Rightarrow> string \<Rightarrow> bool \<Rightarrow> unit result" where
  "deleteEntry pf s path recursive =
     (case getDirectory pf of
        Inl e \<Rightarrow> (Inl e, s)
      | Inr root \<Rightarrow>
          (let parentPath = getParentPath path;
               name = getBasename path in
           case getDirectoryHandle s root parentPath False of
             (Inl e, s') \<Rightarrow> (Inl e, s')
           | (Inr parent, s') \<Rightarrow> dirRemoveEntry s' parent name recursive))"

text \<open>
  \<^verbatim>\<open>copyEntry(from, to, _overwrite)\<close> calls itself for every child of a directory, and
  nothing bounds how often: the first argument of the model is the number of nested
  calls allowed, and the result is \<open>None\<close> when that is not enough. \<open>for_each\<close> is the
  \<^verbatim>\<open>for await\<close> loop over the names, which stops at the first exception.
\<close>

fun for_each :: "('a \<Rightarrow> store \<Rightarrow> (unit result) option) \<Rightarrow> 'a list \<Rightarrow> store \<Rightarrow> (unit result) option" where
  "for_each body [] s = Some (Inr (), s)"
| "for_each body (x # xs) s =
     (case body x s of
        None \<Rightarrow> None
      | Some (Inl e, s') \<Rightarrow> Some (Inl e, s')
      | Some (Inr _, s') \<Rightarrow> for_each body xs s')"

fun copyEntry :: "platform \<Rightarrow> nat \<Rightarrow> store \<Rightarrow> string \<Rightarrow> string \<Rightarrow> bool \<Rightarrow> (unit result) option" where
  "copyEntry pf 0 s from to overwrite = None"
| "copyEntry pf (Suc fuel) s from to overwrite =
     (case getDirectory pf of
        Inl e \<Rightarrow> Some (Inl e, s)
      | Inr root \<Rightarrow>
          (case getHandleAtPath s root from None None of
             (Inl e, s1) \<Rightarrow> Some (Inl e, s1)
           | (Inr (sourceHandle, KFile), s1) \<Rightarrow>
               (case fileGetFile s1 sourceHandle of
                  Inl e \<Rightarrow> Some (Inl e, s1)
                | Inr content \<Rightarrow>
                    (case getFileHandle s1 root to True of
                       (Inl e, s2) \<Rightarrow> Some (Inl e, s2)
                     | (Inr destHandle, s2) \<Rightarrow> Some (fileWrite s2 destHandle content)))
           | (Inr (sourceHandle, KDirectory), s1) \<Rightarrow>
               (case mkdir pf s1 to of
                  (Inl e, s2) \<Rightarrow> Some (Inl e, s2)
                | (Inr _, s2) \<Rightarrow>
                    (case dirEntries pf s2 sourceHandle of
                       Inl e \<Rightarrow> Some (Inl e, s2)
                     | Inr ents \<Rightarrow>
                         for_each
                           (\<lambda>name s'. copyEntry pf fuel s' (from @ ''/'' @ name) (to @ ''/'' @ name) overwrite)
                           (map fst ents) s2))))"

definition moveEntry :: "platform \<Rightarrow> nat \<Rightarrow> store \<Rightarrow> string \<Rightarrow> string \<Rightarrow> bool \<Rightarrow> (unit result) option" where
  "moveEntry pf fuel s from to overwrite =
     (case copyEntry pf fuel s from to overwrite of
        None \<Rightarrow> None
      | Some (Inl e, s') \<Rightarrow> Some (Inl e, s')
      | Some (Inr _, s') \<Rightarrow> Some (deleteEntry pf s' from True))"

text \<open>
  The parameters of a command, \<^verbatim>\<open>Record<string, unknown>\<close> in the source, which
  casts each one to the type \<^verbatim>\<open>shared/types\<close> declares for the command: the paths,
  the text and the base64 string are strings, the others may be left out.
\<close>

record params =
  arg_path :: string
  arg_depth :: "int option"
  arg_includeFiles :: "bool option"
  arg_includeDirs :: "bool option"
  arg_maxBytes :: "int option"
  arg_text :: jsstring
  arg_base64 :: string
  arg_recursive :: "bool option"
  arg_from :: string
  arg_to :: string
  arg_overwrite :: "bool option"

datatype data =
    Null
  | Available bool "string option"
  | Estimate nat nat
  | Entries "FSEntry list"
  | Stats kind nat
  | TextData jsstring bool
  | Base64Data string bool

text \<open>
  What a call of the handler ends with: the response \<^verbatim>\<open>{ok: true, data}\<close>, the
  response \<^verbatim>\<open>{ok: false, error: {code, message, details}}\<close>, or no response at all,
  when an exception leaves the handler (\<open>Uncaught\<close>, with what was thrown).
\<close>

datatype response =
    Ok data
  | Error (code: string) (message: string) (details: "stack option")
  | Uncaught exn

text \<open>The thirteen \<^verbatim>\<open>case\<close> labels of the handler's \<^verbatim>\<open>switch\<close>.\<close>

definition commands :: "string list" where
  "commands =
     [''opfs.isAvailable'', ''opfs.estimate'', ''fs.list'', ''fs.stat'', ''fs.readText'',
      ''fs.writeText'', ''fs.readBase64'', ''fs.writeBase64'', ''fs.mkdir'', ''fs.createFile'',
      ''fs.delete'', ''fs.copy'', ''fs.move'']"

text \<open>
  The \<^verbatim>\<open>catch\<close> block of the handler:
  \<^verbatim>\<open>
  let code = 'UNKNOWN_ERROR';
  if (err.name === 'NotFoundError') code = 'NOT_FOUND';
  else if (err.name === 'NotAllowedError') code = 'NOT_ALLOWED';
  else if (err.name === 'InvalidModificationError') code = 'INVALID_MODIFICATION';
  else if (err.name === 'NoModificationAllowedError') code = 'LOCKED';
  else if (err.name === 'TypeMismatchError') code = 'TYPE_MISMATCH';
  return { ok: false, error: { code, message: err.message || String(e), details: err.stack } };
  \<close>
  \<open>error_code\<close> is the chain of comparisons. A string, number or boolean has no \<^verbatim>\<open>name\<close>,
  \<^verbatim>\<open>message\<close> or \<^verbatim>\<open>stack\<close>: reading them gives \<^verbatim>\<open>undefined\<close>. Reading
  \<^verbatim>\<open>err.name\<close> when \<^verbatim>\<open>null\<close> or \<^verbatim>\<open>undefined\<close> was caught throws a
  \<^verbatim>\<open>TypeError\<close>, and nothing catches that one: the chain is never reached.
\<close>

fun error_code :: "exn \<Rightarrow> string" where
  "error_code (ErrorObject nm msg st) =
     (if nm = ''NotFoundError'' then ''NOT_FOUND''
      else if nm = ''NotAllowedError'' then ''NOT_ALLOWED''
      else if nm = ''InvalidModificationError'' then ''INVALID_MODIFICATION''
      else if nm = ''NoModificationAllowedError'' then ''LOCKED''
      else if nm = ''TypeMismatchError'' then ''TYPE_MISMATCH''
      else ''UNKNOWN_ERROR'')"
| "error_code _ = ''UNKNOWN_ERROR''"

fun catch_error :: "exn \<Rightarrow> response" where
  "catch_error (ErrorObject nm msg st) =
     Error (error_code (ErrorObject nm msg st))
       (if msg \<noteq> '''' then msg else String_of (ErrorObject nm msg st))
       st"
| "catch_error (Primitive p) = Error (error_code (Primitive p)) p None"
| "catch_error ThrownNull = Uncaught (cannot_read ''null'' ''name'')"
| "catch_error ThrownUndefined = Uncaught (cannot_read ''undefined'' ''name'')"

text \<open>\<^verbatim>\<open>return { ok: true, data: result }\<close> after the \<^verbatim>\<open>switch\<close>, or the
  \<^verbatim>\<open>catch\<close> block.\<close>

definition respond :: "('a \<Rightarrow> data) \<Rightarrow> 'a result \<Rightarrow> response \<times> store" where
  "respond f r =
     (case r of
        (Inl e, s) \<Rightarrow> (catch_error e, s)
      | (Inr a, s) \<Rightarrow> (Ok (f a), s))"

text \<open>\<^verbatim>\<open>value || d\<close> and \<^verbatim>\<open>value !== false\<close> on an optional parameter, and the default
  \<^verbatim>\<open>false\<close> of a parameter that is left out.\<close>

definition not_false :: "bool option \<Rightarrow> bool" where
  "not_false b = (b \<noteq> Some False)"

definition or_false :: "bool option \<Rightarrow> bool" where
  "or_false b = (case b of None \<Rightarrow> False | Some v \<Rightarrow> v)"

text \<open>
  \<^verbatim>\<open>window.__OPFS_HANDLER__(command, params)\<close>: what the call ends with and the store
  afterwards, or \<open>None\<close> when the nested calls of a copy exceed the allowance.
\<close>

definition handler ::
  "platform \<Rightarrow> nat \<Rightarrow> store \<Rightarrow> string \<Rightarrow> params \<Rightarrow> (response \<times> store) option" where
  "handler pf fuel s command ps =
     (if command = ''opfs.isAvailable'' then
        Some (respond (\<lambda>(a, reason). Available a reason) (isAvailable pf, s))
      else if command = ''opfs.estimate'' then
        Some (respond (\<lambda>(u, q). Estimate u q) (estimate pf, s))
      else if command = ''fs.list'' then
        Some (respond Entries
          (list_dir pf s (arg_path ps) (or_default (arg_depth ps) 1)
             (not_false (arg_includeFiles ps)) (not_false (arg_includeDirs ps)), s))
      else if command = ''fs.stat'' then
        Some (respond (\<lambda>(k, n). Stats k n) (stat pf s (arg_path ps)))
      else if command = ''fs.readText'' then
        Some (respond (\<lambda>(t, tr). TextData t tr) (readText pf s (arg_path ps) (arg_maxBytes ps)))
      else if command = ''fs.writeText'' then
        Some (respond (\<lambda>_. Null) (writeText pf s (arg_path ps) (arg_text ps)))
      else if command = ''fs.readBase64'' then
        Some (respond (\<lambda>(b, tr). Base64Data b tr) (readBase64 pf s (arg_path ps) (arg_maxBytes ps)))
      else if command = ''fs.writeBase64'' then
        Some (respond (\<lambda>_. Null) (writeBase64 pf s (arg_path ps) (arg_base64 ps)))
      else if command = ''fs.mkdir'' then
        Some (respond (\<lambda>_. Null) (mkdir pf s (arg_path ps)))
      else if command = ''fs.createFile'' then
        Some (respond (\<lambda>_. Null) (createFile pf s (arg_path ps)))
      else if command = ''fs.delete'' then
        Some (respond (\<lambda>_. Null) (deleteEntry pf s (arg_path ps) (or_false (arg_recursive ps))))
      else if command = ''fs.copy'' then
        map_option (respond (\<lambda>_. Null))
          (copyEntry pf fuel s (arg_from ps) (arg_to ps) (or_false (arg_overwrite ps)))
      else if command = ''fs.move'' then
        map_option (respond (\<lambda>_. Null))
          (moveEntry pf fuel s (arg_from ps) (arg_to ps) (or_false (arg_overwrite ps)))
      else Some (Error ''UNKNOWN_COMMAND'' (''Unknown command: '' @ command) None, s))"

text \<open>A store as the file system keeps it: no locator twice, every name valid, and
  every entry inside a directory of the store.\<close>

definition wf_store :: "store \<Rightarrow> bool" where
  "wf_store s \<longleftrightarrow>
     distinct (map fst s) \<and>
     list_all (\<lambda>(p, e). p \<noteq> [] \<and> list_all valid_name p \<and> node_at s (butlast p) = Some DirE) s"

text \<open>A platform where the storage API is present and the root directory opens.\<close>

definition root_opens :: "platform \<Rightarrow> bool" where
  "root_opens pf \<longleftrightarrow>
     storage_in_navigator pf \<and> getDirectory_in_storage pf \<and> getDirectory_error pf = None"

text \<open>A page whose storage API is present and whose root directory opens, and a
  parameter object with every optional parameter left out.\<close>

definition opfs_page :: platform where
  "opfs_page = \<lparr>storage_in_navigator = True, getDirectory_in_storage = True,
                 getDirectory_error = None, storage_estimate = Inr (Some 0, Some 0),
                 listing_rank = (\<lambda>p. 0)\<rparr>"

definition no_params :: params where
  "no_params = \<lparr>arg_path = ''/'', arg_depth = None, arg_includeFiles = None,
                 arg_includeDirs = None, arg_maxBytes = None, arg_text = [], arg_base64 = [],
                 arg_recursive = None, arg_from = ''/'', arg_to = ''/'', arg_overwrite = None\<rparr>"




text \<open>The cap of the specification: the explicit \<^verbatim>\<open>maxBytes\<close>, or 2 MiB when it is left out.\<close>

definition cap :: "int option \<Rightarrow> int" where
  "cap maxBytes = (case maxBytes of None \<Rightarrow> 2 * 1024 * 1024 | Some m \<Rightarrow> m)"

text \<open>A store with one file of three bytes, \<open>/f\<close>.\<close>

definition one_file :: store where
  "one_file = [([''f''], FileE [0x61, 0x62, 0x63])]"

text \<open>A store with one file \<open>/f\<close> that starts with the little-endian UTF-16 byte order
  mark, followed by the letters a and b in that encoding.\<close>

definition utf16_file :: store where
  "utf16_file = [([''f''], FileE [0xFF, 0xFE, 0x61, 0x00, 0x62, 0x00])]"

text \<open>
  For the listing: the path \<^verbatim>\<open>list\<close> gives the child \<open>name\<close> of the directory at \<open>path\<close>,
  whether the filters keep a child of a kind, and the entry the loop body pushes for a
  child, in which the size of a file is left out when \<^verbatim>\<open>getFile\<close> throws and a directory
  has \<open>children\<close> when more than one level was asked for.
\<close>

definition child_path :: "string \<Rightarrow> string \<Rightarrow> string" where
  "child_path path name = (if path = ''/'' then ''/'' @ name else path @ ''/'' @ name)"

definition kept :: "bool \<Rightarrow> bool \<Rightarrow> string \<times> kind \<Rightarrow> bool" where
  "kept includeFiles includeDirs = (\<lambda>(name, kind). if kind = KFile then includeFiles else includeDirs)"

definition listed_entry ::
  "platform \<Rightarrow> store \<Rightarrow> string \<Rightarrow> int \<Rightarrow> bool \<Rightarrow> bool \<Rightarrow> locator \<Rightarrow> string \<times> kind \<Rightarrow> FSEntry" where
  "listed_entry pf s path depth includeFiles includeDirs dir =
     (\<lambda>(name, kind).
        FSEntry name (child_path path name) kind
          (if kind = KFile
           then (case fileGetFile s (dir @ [name]) of Inr file \<Rightarrow> Some (length file) | Inl _ \<Rightarrow> None)
           else None)
          (if kind = KDirectory \<and> depth > 1
           then (case list_dir pf s (child_path path name) (depth - 1) includeFiles includeDirs of
                   Inr children \<Rightarrow> Some children
                 | Inl _ \<Rightarrow> None)
           else None))"

text \<open>Two stores for listings: \<open>/a/b/c.txt\<close> with a file of two bytes, and \<open>/d/e\<close> with an
  empty directory.\<close>

definition nested_store :: store where
  "nested_store =
     [([''a''], DirE), ([''a'', ''b''], DirE), ([''a'', ''b'', ''c.txt''], FileE [0x68, 0x69])]"

definition empty_dir_store :: store where
  "empty_dir_store = [([''d''], DirE), ([''d'', ''e''], DirE)]"

text \<open>A store with a directory \<open>/a\<close> holding \<open>b\<close> (with the file \<open>c.txt\<close> of two bytes) and the
  empty directory \<open>e\<close>.\<close>

definition tree_store :: store where
  "tree_store =
     [([''a''], DirE), ([''a'', ''b''], DirE), ([''a'', ''b'', ''c.txt''], FileE [0x68, 0x69]),
      ([''a'', ''e''], DirE)]"


text \<open>A store with two files, \<open>/f\<close> of three bytes and \<open>/g\<close> of one.\<close>

definition two_files :: store where
  "two_files = [([''f''], FileE [0x61, 0x62, 0x63]), ([''g''], FileE [0x7A])]"

text \<open>
  What a successful copy from the locator \<open>F\<close> to the locator \<open>T\<close> has done to the store:
  every entry at or below \<open>F\<close> is found at the same place below \<open>T\<close>; where the source has
  nothing, the destination is as it was; outside \<open>T\<close> nothing is lost, and nothing changes
  except that missing directories above \<open>T\<close> may have been created.
\<close>

definition copied :: "store \<Rightarrow> store \<Rightarrow> locator \<Rightarrow> locator \<Rightarrow> bool" where
  "copied s s' F T \<longleftrightarrow>
     wf_store s'
     \<and> (\<forall>rel e. node_at s (F @ rel) = Some e \<longrightarrow> node_at s' (T @ rel) = Some e)
     \<and> (\<forall>rel. node_at s (F @ rel) = None \<longrightarrow> node_at s' (T @ rel) = node_at s (T @ rel))
     \<and> (\<forall>q e. \<not> prefix T q \<longrightarrow> node_at s q = Some e \<longrightarrow> node_at s' q = Some e)
     \<and> (\<forall>q. \<not> prefix T q \<longrightarrow> \<not> prefix q T \<longrightarrow> node_at s' q = node_at s q)"

text \<open>What \<^verbatim>\<open>stat\<close> reports for an entry: its kind, and the size of a file or 0.\<close>

fun stat_of :: "entry \<Rightarrow> kind \<times> nat" where
  "stat_of (FileE c) = (KFile, length c)"
| "stat_of DirE = (KDirectory, 0)"

text \<open>A scalar value: a code point that is not a surrogate.\<close>

definition scalar_value :: "nat \<Rightarrow> bool" where
  "scalar_value c \<longleftrightarrow> c < 0x110000 \<and> \<not> (0xD800 \<le> c \<and> c \<le> 0xDFFF)"

text \<open>Code units in which every surrogate is half of a pair: a lead followed by a
  trail.\<close>

fun paired :: "nat list \<Rightarrow> bool" where
  "paired [] = True"
| "paired [c] = (\<not> is_lead c \<and> \<not> is_trail c)"
| "paired (c # d # r) =
     (if is_lead c then is_trail d \<and> paired r else \<not> is_trail c \<and> paired (d # r))"

text \<open>A string that \<^verbatim>\<open>writeText\<close> and \<^verbatim>\<open>readText\<close> give back as it is: well-formed
  UTF-16 that does not start with the byte order mark U+FEFF.\<close>

definition plain_text :: "jsstring \<Rightarrow> bool" where
  "plain_text text \<longleftrightarrow> paired (map unat text) \<and> take 1 text \<noteq> [0xFEFF]"

section \<open>Facts about splitting\<close>

lemma split_not_Nil: "split c xs \<noteq> []"
  by (induction xs) auto

lemma split_append_sep: "split c (xs @ c # ys) = split c xs @ split c ys"
proof (induction xs)
  case Nil
  show ?case by simp
next
  case (Cons x xs)
  then show ?case
    using split_not_Nil [of c xs] by (cases "split c xs") auto
qed

lemma split_no_sep: "c \<notin> set xs \<Longrightarrow> split c xs = [xs]"
  by (induction xs) auto

lemma parts_append_sep: "parts (xs @ CHR ''/'' # ys) = parts xs @ parts ys"
  by (simp add: parts_def split_append_sep)

lemma parts_no_sep: "CHR ''/'' \<notin> set w \<Longrightarrow> w \<noteq> [] \<Longrightarrow> parts w = [w]"
  by (simp add: parts_def split_no_sep)

lemma parts_Nil [simp]: "parts [] = []"
  by (simp add: parts_def)

lemma parts_slash [simp]: "parts ''/'' = []"
  by (simp add: parts_def)

lemma parts_sep_Cons [simp]: "parts (CHR ''/'' # ys) = parts ys"
  by (simp add: parts_def)

lemma parts_nonempty: "w \<in> set (parts path) \<Longrightarrow> w \<noteq> []"
  by (auto simp: parts_def)

lemma split_pieces_no_sep: "w \<in> set (split c xs) \<Longrightarrow> c \<notin> set w"
proof (induction xs arbitrary: w)
  case Nil
  then show ?case by simp
next
  case (Cons x xs)
  show ?case
  proof (cases "x = c")
    case True
    with Cons show ?thesis by auto
  next
    case False
    obtain v vs where sp: "split c xs = v # vs"
      using split_not_Nil [of c xs] by (cases "split c xs") auto
    from Cons.prems False sp have "w = x # v \<or> w \<in> set vs" by simp
    then show ?thesis
    proof
      assume "w = x # v"
      moreover have "c \<notin> set v" using Cons.IH [of v] sp by simp
      ultimately show ?thesis using False by auto
    next
      assume "w \<in> set vs"
      then show ?thesis using Cons.IH [of w] sp by simp
    qed
  qed
qed

lemma parts_no_slash: "w \<in> set (parts path) \<Longrightarrow> CHR ''/'' \<notin> set w"
  by (auto simp: parts_def dest: split_pieces_no_sep)

lemma parts_join:
  "\<forall>w \<in> set ws. w \<noteq> [] \<and> CHR ''/'' \<notin> set w \<Longrightarrow> parts (join ws) = ws"
proof (induction ws rule: join.induct)
  case 1
  show ?case by simp
next
  case (2 w)
  then show ?case by (simp add: parts_no_sep)
next
  case (3 w v ws)
  then show ?case by (simp add: parts_append_sep parts_no_sep)
qed

lemma parts_normalize: "parts (normalize path) = parts path"
  unfolding normalize_def
  by (simp add: parts_join parts_nonempty parts_no_slash)

section \<open>Facts about the store and about resolving a path\<close>

lemma node_at_snoc [simp]: "node_at s (p @ [n]) = map_of s (p @ [n])"
  by (simp add: node_at_def)

lemma node_at_Nil [simp]: "node_at s [] = Some DirE"
  by (simp add: node_at_def)

lemma wf_store_lookup:
  assumes "wf_store s" "map_of s p = Some e"
  shows "p \<noteq> [] \<and> list_all valid_name p \<and> node_at s (butlast p) = Some DirE"
proof -
  from assms(2) have "(p, e) \<in> set s" by (rule map_of_SomeD)
  with assms(1) show ?thesis
    by (auto simp: wf_store_def list_all_iff)
qed

lemma wf_valid_names: "wf_store s \<Longrightarrow> node_at s p = Some e \<Longrightarrow> list_all valid_name p"
  by (cases "p = []") (auto simp: node_at_def dest: wf_store_lookup)

lemma wf_parent_dir: "wf_store s \<Longrightarrow> node_at s (p @ [n]) = Some e \<Longrightarrow> node_at s p = Some DirE"
  using wf_store_lookup [of s "p @ [n]" e] by simp

lemma wf_prefix_dirs:
  "wf_store s \<Longrightarrow> node_at s (p @ q) = Some e \<Longrightarrow> q \<noteq> [] \<Longrightarrow> node_at s p = Some DirE"
proof (induction q arbitrary: e rule: rev_induct)
  case Nil
  then show ?case by simp
next
  case (snoc n q)
  from snoc.prems have par: "node_at s (p @ q) = Some DirE"
    using wf_parent_dir [of s "p @ q" n e] by simp
  show ?case
  proof (cases "q = []")
    case True
    with par show ?thesis by simp
  next
    case False
    with snoc.IH [OF snoc.prems(1) par] show ?thesis by simp
  qed
qed

lemma walk_dirs_existing:
  "wf_store s \<Longrightarrow> node_at s (cur @ ps) = Some DirE \<Longrightarrow>
   walk_dirs s cur ps create = (Inr (cur @ ps), s)"
proof (induction ps arbitrary: cur)
  case Nil
  show ?case by simp
next
  case (Cons n r)
  have whole: "node_at s ((cur @ [n]) @ r) = Some DirE"
    using Cons.prems(2) by simp
  have child: "node_at s (cur @ [n]) = Some DirE"
  proof (cases "r = []")
    case True
    with whole show ?thesis by simp
  next
    case False
    from wf_prefix_dirs [OF Cons.prems(1) whole False] show ?thesis .
  qed
  have parent: "node_at s cur = Some DirE"
    using wf_parent_dir [OF Cons.prems(1) child] .
  have "list_all valid_name (cur @ [n])"
    using wf_valid_names [OF Cons.prems(1) child] .
  then have vn: "valid_name n" by simp
  have step: "dirGetDirectoryHandle s cur n create = (Inr (cur @ [n]), s)"
    using vn parent child by (simp add: dirGetDirectoryHandle_def)
  show ?case
    using step Cons.IH [OF Cons.prems(1) whole] by simp
qed

lemma getDirectory_root_opens: "root_opens pf \<Longrightarrow> getDirectory pf = Inr []"
  by (simp add: root_opens_def getDirectory_def)

lemma resolve_file:
  assumes "wf_store s" "node_at s ps = Some (FileE bs)"
  shows "ps \<noteq> []" "walk_dirs s [] (butlast ps) create = (Inr (butlast ps), s)"
    "valid_name (last ps)" "map_of s ps = Some (FileE bs)"
proof -
  show ne: "ps \<noteq> []" using assms(2) by (auto simp: node_at_def)
  then have m: "map_of s ps = Some (FileE bs)" using assms(2) by (simp add: node_at_def)
  then show "map_of s ps = Some (FileE bs)" .
  have "node_at s (butlast ps) = Some DirE"
    using wf_store_lookup [OF assms(1) m] by simp
  then show "walk_dirs s [] (butlast ps) create = (Inr (butlast ps), s)"
    using walk_dirs_existing [OF assms(1), of "[]" "butlast ps" create] by simp
  have "list_all valid_name ps" using wf_store_lookup [OF assms(1) m] by simp
  then show "valid_name (last ps)" using ne by (simp add: list_all_iff)
qed

lemma getFileHandle_existing:
  assumes "wf_store s" "node_at s (parts path) = Some (FileE bs)"
  shows "getFileHandle s [] path create = (Inr (parts path), s)"
proof -
  note r = resolve_file [OF assms]
  have "butlast (parts path) @ [last (parts path)] = parts path"
    using r(1) by simp
  then show ?thesis
    using r by (simp add: getFileHandle_def Let_def dirGetFileHandle_def
        walk_dirs_existing [OF assms(1)] wf_store_lookup [OF assms(1) r(4)])
qed

lemma readText_existing:
  assumes "root_opens pf" "wf_store s" "node_at s (parts path) = Some (FileE file)"
  shows "readText pf s path maxBytes =
     (let cap = or_default maxBytes (2 * 1024 * 1024) in
      (Inr (blob_text (if int (length file) > cap then blob_slice0 file cap else file),
            int (length file) > cap), s))"
  using resolve_file(4) [OF assms(2,3)]
  by (simp add: readText_def getDirectory_root_opens [OF assms(1)]
      getFileHandle_existing [OF assms(2,3)] fileGetFile_def Let_def)

section \<open>Path algebra: parent, base name, root, repeated slashes\<close>

lemma parts_double_slash: "parts (xs @ ''//'' @ ys) = parts (xs @ ''/'' @ ys)"
  by (simp add: parts_append_sep)

lemma getDirectoryHandle_parts:
  "getDirectoryHandle s root path create = walk_dirs s root (parts path) create"
  by (auto simp: getDirectoryHandle_def)

lemma last_parts_nonempty: "parts path \<noteq> [] \<Longrightarrow> last (parts path) \<noteq> []"
  using parts_nonempty [of "last (parts path)" path] by simp

lemma getBasename_parts: "getBasename path = (if parts path = [] then [] else last (parts path))"
  by (simp add: getBasename_def Let_def)

lemma dirname_eq: "dirname path = getParentPath path"
  by (simp add: dirname_def getParentPath_def parts_normalize Let_def)

lemma basename_eq: "basename path None = getBasename path"
  by (simp add: basename_def getBasename_def parts_normalize Let_def)

text \<open>
  C10. The parent of the root (written \<open>/\<close> or as the empty path) and of every path of
  one segment is \<open>/\<close>; the base name of the root is the empty string; the empty path and
  \<open>/\<close> resolve to the root handle without a lookup and without a change of the store; and
  a path with a slash doubled anywhere has the same segments, the same parent and base
  name, and resolves as the path without the extra slash does. The panel's
  \<^verbatim>\<open>dirname\<close> and \<^verbatim>\<open>basename\<close> are the same functions.
\<close>

theorem path_algebra:
  "getParentPath ''/'' = ''/'' \<and> getParentPath '''' = ''/''
   \<and> (CHR ''/'' \<notin> set w \<longrightarrow> getParentPath (''/'' @ w) = ''/'')
   \<and> getBasename ''/'' = '''' \<and> getBasename '''' = ''''
   \<and> dirname path = getParentPath path \<and> basename path None = getBasename path
   \<and> getDirectoryHandle s root ''/'' create = (Inr root, s)
   \<and> getDirectoryHandle s root '''' create = (Inr root, s)
   \<and> getHandleAtPath s root ''/'' cr isFile = (Inr (root, KDirectory), s)
   \<and> getHandleAtPath s root '''' cr isFile = (Inr (root, KDirectory), s)
   \<and> parts (xs @ ''//'' @ ys) = parts (xs @ ''/'' @ ys)
   \<and> getParentPath (xs @ ''//'' @ ys) = getParentPath (xs @ ''/'' @ ys)
   \<and> getBasename (xs @ ''//'' @ ys) = getBasename (xs @ ''/'' @ ys)
   \<and> getDirectoryHandle s root (xs @ ''//'' @ ys) create
       = getDirectoryHandle s root (xs @ ''/'' @ ys) create
   \<and> getFileHandle s root (xs @ ''//'' @ ys) create
       = getFileHandle s root (xs @ ''/'' @ ys) create
   \<and> getHandleAtPath s root (xs @ ''//'' @ ys) cr isFile
       = getHandleAtPath s root (xs @ ''/'' @ ys) cr isFile"
proof -
  have single: "CHR ''/'' \<notin> set w \<longrightarrow> getParentPath (''/'' @ w) = ''/''"
  proof
    assume "CHR ''/'' \<notin> set w"
    then have "length (parts w) \<le> 1"
      by (cases "w = []") (simp_all add: parts_no_sep)
    then show "getParentPath (''/'' @ w) = ''/''"
      by (simp add: getParentPath_def Let_def)
  qed
  have dbl: "parts (xs @ ''//'' @ ys) = parts (xs @ ''/'' @ ys)"
    by (rule parts_double_slash)
  have root1: "getParentPath ''/'' = ''/''" "getParentPath '''' = ''/''"
    by (simp_all add: getParentPath_def)
  have root2: "getBasename ''/'' = ''''" "getBasename '''' = ''''"
    by (simp_all add: getBasename_def)
  have root3: "getDirectoryHandle s root ''/'' create = (Inr root, s)"
    "getDirectoryHandle s root '''' create = (Inr root, s)"
    by (simp_all add: getDirectoryHandle_def)
  have root4: "getHandleAtPath s root ''/'' cr isFile = (Inr (root, KDirectory), s)"
    "getHandleAtPath s root '''' cr isFile = (Inr (root, KDirectory), s)"
    by (simp_all add: getHandleAtPath_def)
  have d1: "getParentPath (xs @ ''//'' @ ys) = getParentPath (xs @ ''/'' @ ys)"
    unfolding getParentPath_def dbl ..
  have d2: "getBasename (xs @ ''//'' @ ys) = getBasename (xs @ ''/'' @ ys)"
    unfolding getBasename_def dbl ..
  have d3: "getDirectoryHandle s root (xs @ ''//'' @ ys) create
       = getDirectoryHandle s root (xs @ ''/'' @ ys) create"
    unfolding getDirectoryHandle_parts dbl ..
  have d4: "getFileHandle s root (xs @ ''//'' @ ys) create
       = getFileHandle s root (xs @ ''/'' @ ys) create"
    unfolding getFileHandle_def dbl ..
  have d5: "getHandleAtPath s root (xs @ ''//'' @ ys) cr isFile
       = getHandleAtPath s root (xs @ ''/'' @ ys) cr isFile"
    unfolding getHandleAtPath_def dbl ..
  show ?thesis
    using single dbl root1 root2 root3 root4 d1 d2 d3 d4 d5 dirname_eq basename_eq
    by blast
qed

theorem path_algebra_witness:
  "CHR ''/'' \<notin> set ''foo'' \<and> getParentPath ''/foo'' = ''/''
   \<and> parts ''/a//b'' = parts ''/a/b'' \<and> getBasename ''/a//b'' = ''b''"
proof -
  have "parts ''/a/b'' = [''a'', ''b'']"
    by (simp add: parts_def)
  then have b: "getBasename ''/a/b'' = ''b''"
    by (simp add: getBasename_def)
  show ?thesis
    using path_algebra [of "''foo''" "''/a//b''" "[]" "[]" True None None "''/a''" "''b''"] b
    by simp
qed

section \<open>Unknown commands\<close>

text \<open>
  C9. A command name that is none of the thirteen gets the response
  \<open>{ok: false, error: {code: "UNKNOWN_COMMAND", message}}\<close>, the message being
  \<open>Unknown command: \<close> followed by the name; the handler returns it whatever the
  parameters and the allowance for nested calls are, and leaves the store as it was.
\<close>

theorem unknown_command:
  "command \<notin> set commands \<Longrightarrow>
   handler pf fuel s command ps
     = Some (Error ''UNKNOWN_COMMAND'' (''Unknown command: '' @ command) None, s)"
  by (simp add: handler_def commands_def)

theorem unknown_command_witness:
  "''fs.rename'' \<notin> set commands \<and>
   handler opfs_page 0 [] ''fs.rename'' no_params
     = Some (Error ''UNKNOWN_COMMAND'' ''Unknown command: fs.rename'' None, [])"
proof -
  have h: "''fs.rename'' \<notin> set commands"
    by (simp add: commands_def)
  show ?thesis
    using h unknown_command [OF h, of opfs_page 0 "[]" no_params] by simp
qed

section \<open>Exceptions become error responses\<close>









section \<open>Reading text with a cap\<close>

lemma blob_slice0_pos: "0 \<le> e \<Longrightarrow> blob_slice0 bs e = take (nat e) bs"
  by (simp add: blob_slice0_def Let_def min_def)

lemma or_default_cap: "maxBytes = None \<or> (\<exists>m. maxBytes = Some m \<and> 0 < m) \<Longrightarrow>
  or_default maxBytes (2 * 1024 * 1024) = cap maxBytes \<and> 0 < cap maxBytes"
  by (auto simp: or_default_def cap_def)

text \<open>
  C3, with \<^verbatim>\<open>maxBytes = 0\<close> standing for the default. For a file at \<open>path\<close> and a cap that
  is the default or an explicit positive \<^verbatim>\<open>maxBytes\<close>, \<^verbatim>\<open>readText\<close> succeeds, leaves the
  store as it is, reports \<open>truncated\<close> exactly when the file has more bytes than the cap,
  and returns what \<^verbatim>\<open>blob.text()\<close> decodes from the first cap bytes of the file (all of
  them when there are no more); when truncated these are exactly cap bytes and not the
  whole content. And \<^verbatim>\<open>readText\<close> with \<^verbatim>\<open>maxBytes = 0\<close> is \<^verbatim>\<open>readText\<close> with the default
  cap, on every store and path.
\<close>

theorem readText_truncation:
  assumes "root_opens pf" and "wf_store s"
    and "node_at s (parts path) = Some (FileE file)"
    and "maxBytes = None \<or> (\<exists>m. maxBytes = Some m \<and> 0 < m)"
  shows "(\<exists>text truncated.
           readText pf s path maxBytes = (Inr (text, truncated), s)
           \<and> (truncated \<longleftrightarrow> cap maxBytes < int (length file))
           \<and> text = blob_text (take (nat (cap maxBytes)) file)
           \<and> (truncated \<longrightarrow> length (take (nat (cap maxBytes)) file) = nat (cap maxBytes)
                              \<and> take (nat (cap maxBytes)) file \<noteq> file))
    \<and> readText pf' s' path' (Some 0) = readText pf' s' path' None"
proof
  from or_default_cap [OF assms(4)]
  have od: "or_default maxBytes (2 * 1024 * 1024) = cap maxBytes" and pos: "0 < cap maxBytes"
    by simp_all
  let ?c = "cap maxBytes"
  have rt: "readText pf s path maxBytes =
      (Inr (blob_text (if int (length file) > ?c then blob_slice0 file ?c else file),
            int (length file) > ?c), s)"
    using readText_existing [OF assms(1,2,3), of maxBytes] od by (simp add: Let_def)
  have slice: "(if int (length file) > ?c then blob_slice0 file ?c else file) = take (nat ?c) file"
    using pos by (simp add: blob_slice0_pos)
  have len: "?c < int (length file) \<Longrightarrow> length (take (nat ?c) file) = nat ?c"
    by simp
  have ne: "?c < int (length file) \<Longrightarrow> take (nat ?c) file \<noteq> file"
  proof
    assume a: "?c < int (length file)" and "take (nat ?c) file = file"
    then have "length file \<le> nat ?c" by (simp only: take_all_iff)
    with a pos show False by linarith
  qed
  show "\<exists>text truncated.
           readText pf s path maxBytes = (Inr (text, truncated), s)
           \<and> (truncated \<longleftrightarrow> cap maxBytes < int (length file))
           \<and> text = blob_text (take (nat (cap maxBytes)) file)
           \<and> (truncated \<longrightarrow> length (take (nat (cap maxBytes)) file) = nat (cap maxBytes)
                              \<and> take (nat (cap maxBytes)) file \<noteq> file)"
    unfolding rt slice using len ne by simp
  have e: "or_default (Some 0) = or_default None"
    by (rule ext) (simp add: or_default_def)
  show "readText pf' s' path' (Some 0) = readText pf' s' path' None"
    unfolding readText_def e ..
qed

lemma wf_one_file: "wf_store one_file"
  by (simp add: one_file_def wf_store_def valid_name_def node_at_def)

lemma parts_f: "parts ''/f'' = [''f'']"
  by (simp add: parts_no_sep)

lemma root_opens_page: "root_opens opfs_page"
  by (simp add: root_opens_def opfs_page_def)

lemma decode_a: "blob_text [0x61] = [0x61]" "blob_text [0x61, 0x62, 0x63] = [0x61, 0x62, 0x63]"
  by (simp_all add: blob_text_def utf8_decode_def strip_bom_def)

lemma wf_utf16_file: "wf_store utf16_file"
  by (simp add: utf16_file_def wf_store_def valid_name_def node_at_def)

lemma decode_utf16: "blob_text [0xFF, 0xFE, 0x61, 0x00] = [0x61]"
  by (simp add: blob_text_def utf16_decode_def is_lead_def is_trail_def)

theorem readText_truncation_witness:
  "root_opens opfs_page \<and> wf_store one_file \<and> 0 < (1::int)
   \<and> node_at one_file (parts ''/f'') = Some (FileE [0x61, 0x62, 0x63])
   \<and> readText opfs_page one_file ''/f'' (Some 1) = (Inr ([0x61], True), one_file)
   \<and> wf_store utf16_file \<and> 0 < (4::int)
   \<and> node_at utf16_file (parts ''/f'') = Some (FileE [0xFF, 0xFE, 0x61, 0x00, 0x62, 0x00])
   \<and> readText opfs_page utf16_file ''/f'' (Some 4) = (Inr ([0x61], True), utf16_file)"
proof -
  have n: "node_at one_file (parts ''/f'') = Some (FileE [0x61, 0x62, 0x63])"
    unfolding parts_f by (simp add: one_file_def node_at_def)
  have m: "Some (1::int) = None \<or> (\<exists>m. Some (1::int) = Some m \<and> 0 < m)" by simp
  have r1: "readText opfs_page one_file ''/f'' (Some 1) = (Inr ([0x61], True), one_file)"
    using readText_truncation [OF root_opens_page wf_one_file n m, THEN conjunct1]
    by (auto simp: cap_def decode_a)
  have n2: "node_at utf16_file (parts ''/f'') = Some (FileE [0xFF, 0xFE, 0x61, 0x00, 0x62, 0x00])"
    unfolding parts_f by (simp add: utf16_file_def node_at_def)
  have m2: "Some (4::int) = None \<or> (\<exists>m. Some (4::int) = Some m \<and> 0 < m)" by simp
  have r2: "readText opfs_page utf16_file ''/f'' (Some 4) = (Inr ([0x61], True), utf16_file)"
    using readText_truncation [OF root_opens_page wf_utf16_file n2 m2, THEN conjunct1]
    by (auto simp: cap_def decode_utf16)
  from n r1 n2 r2 root_opens_page wf_one_file wf_utf16_file show ?thesis
    by simp
qed

text \<open>
  C3, as stated for every explicit cap, fails for \<^verbatim>\<open>maxBytes = 0\<close>: the handler takes the
  default instead, so a file of three bytes is returned whole and not flagged, although
  its size exceeds the cap 0.
\<close>

theorem readText_zero_cap_counterexample:
  "readText opfs_page one_file ''/f'' (Some 0) = (Inr ([0x61, 0x62, 0x63], False), one_file)
   \<and> cap (Some 0) < int (length [0x61 :: byte, 0x62, 0x63])"
proof -
  have n: "node_at one_file (parts ''/f'') = Some (FileE [0x61, 0x62, 0x63])"
    unfolding parts_f by (simp add: one_file_def node_at_def)
  show ?thesis
    using readText_existing [OF root_opens_page wf_one_file n, of "Some 0"]
    by (simp add: or_default_def cap_def decode_a)
qed

section \<open>How a walk changes the store\<close>


lemma map_of_append_Some: "map_of s q = Some e \<Longrightarrow> map_of (s @ t) q = Some e"
  by (simp add: map_add_Some_iff)

lemma map_of_append_None: "map_of s q = None \<Longrightarrow> map_of (s @ t) q = map_of t q"
  by (simp add: map_add_def split: option.splits)

lemma node_at_append_Some: "node_at s q = Some e \<Longrightarrow> node_at (s @ t) q = Some e"
  by (auto simp: node_at_def map_of_append_Some)

lemma node_at_extend:
  "map_of s q = None \<Longrightarrow>
   node_at (s @ [(q, e)]) r = (if r = q \<and> q \<noteq> [] then Some e else node_at s r)"
  by (auto simp: node_at_def map_add_def split: option.splits)

lemma map_of_extend:
  "map_of s q = None \<Longrightarrow> map_of (s @ [(q, e)]) r = (if r = q then Some e else map_of s r)"
  by (auto simp: map_add_def split: option.splits)

lemma map_of_None_iff: "map_of s q = None \<longleftrightarrow> q \<notin> fst ` set s"
  by (simp add: map_of_eq_None_iff)

lemma wf_store_extend:
  assumes "wf_store s" and "map_of s (dir @ [n]) = None" and "node_at s dir = Some DirE"
    and "valid_name n"
  shows "wf_store (s @ [(dir @ [n], e)])"
proof -
  have vd: "list_all valid_name dir"
    using wf_valid_names [OF assms(1,3)] .
  have old: "list_all (\<lambda>(p, e'). p \<noteq> [] \<and> list_all valid_name p
               \<and> node_at (s @ [(dir @ [n], e)]) (butlast p) = Some DirE) s"
    using assms(1) by (auto simp: wf_store_def list_all_iff intro: node_at_append_Some)
  have new: "node_at (s @ [(dir @ [n], e)]) (butlast (dir @ [n])) = Some DirE"
    using assms(3) by (simp add: node_at_append_Some)
  have d: "distinct (map fst (s @ [(dir @ [n], e)]))"
    using assms(1,2) by (simp add: wf_store_def map_of_None_iff)
  show ?thesis
    unfolding wf_store_def using old new d vd assms(4) by simp
qed

text \<open>One step of a walk.\<close>

lemma dirGetDirectoryHandle_Inr:
  assumes "dirGetDirectoryHandle s dir n create = (Inr h, s')"
  shows "h = dir @ [n]" "valid_name n" "node_at s dir = Some DirE"
    "node_at s' (dir @ [n]) = Some DirE"
    "(map_of s (dir @ [n]) = Some DirE \<and> s' = s)
     \<or> (map_of s (dir @ [n]) = None \<and> create \<and> s' = s @ [(dir @ [n], DirE)])"
  using assms
  by (auto simp: dirGetDirectoryHandle_def map_add_def split: if_splits option.splits entry.splits)

lemma dirGetDirectoryHandle_Inl:
  "dirGetDirectoryHandle s dir n create = (Inl e, s') \<Longrightarrow> s' = s"
  by (auto simp: dirGetDirectoryHandle_def split: if_splits option.splits entry.splits)

lemma dirGetDirectoryHandle_no_create:
  "dirGetDirectoryHandle s dir n False = (r, s') \<Longrightarrow> s' = s"
  by (auto simp: dirGetDirectoryHandle_def split: if_splits option.splits entry.splits)

lemma dirGetDirectoryHandle_mono:
  "dirGetDirectoryHandle s dir n create = (r, s') \<Longrightarrow> node_at s q = Some e \<Longrightarrow>
   node_at s' q = Some e"
  by (auto simp: dirGetDirectoryHandle_def node_at_append_Some
      split: if_splits option.splits entry.splits)

lemma dirGetDirectoryHandle_frame:
  "dirGetDirectoryHandle s dir n create = (r, s') \<Longrightarrow> q \<noteq> dir @ [n] \<Longrightarrow>
   node_at s' q = node_at s q"
  by (auto simp: dirGetDirectoryHandle_def node_at_extend
      split: if_splits option.splits entry.splits)

lemma dirGetDirectoryHandle_wf:
  "dirGetDirectoryHandle s dir n create = (r, s') \<Longrightarrow> wf_store s \<Longrightarrow> wf_store s'"
  by (auto simp: dirGetDirectoryHandle_def wf_store_extend
      split: if_splits option.splits entry.splits)

text \<open>A whole walk.\<close>

lemma walk_dirs_mono:
  "walk_dirs s cur ps create = (r, s') \<Longrightarrow> node_at s q = Some e \<Longrightarrow> node_at s' q = Some e"
proof (induction ps arbitrary: s cur)
  case Nil
  then show ?case by simp
next
  case (Cons n rest)
  show ?case
  proof (cases "dirGetDirectoryHandle s cur n create")
    case (Pair r1 s1)
    show ?thesis
    proof (cases r1)
      case (Inl err)
      with Cons.prems Pair show ?thesis
        by (auto dest: dirGetDirectoryHandle_Inl)
    next
      case (Inr h)
      with Cons.prems(1) Pair have w: "walk_dirs s1 h rest create = (r, s')" by simp
      have "node_at s1 q = Some e"
        using dirGetDirectoryHandle_mono [OF Pair Cons.prems(2)] .
      from Cons.IH [OF w this] show ?thesis .
    qed
  qed
qed

lemma walk_dirs_wf:
  "walk_dirs s cur ps create = (r, s') \<Longrightarrow> wf_store s \<Longrightarrow> wf_store s'"
proof (induction ps arbitrary: s cur)
  case Nil
  then show ?case by simp
next
  case (Cons n rest)
  show ?case
  proof (cases "dirGetDirectoryHandle s cur n create")
    case (Pair r1 s1)
    have wf1: "wf_store s1" using dirGetDirectoryHandle_wf [OF Pair Cons.prems(2)] .
    show ?thesis
    proof (cases r1)
      case (Inl err)
      with Cons.prems Pair wf1 show ?thesis by auto
    next
      case (Inr h)
      with Cons.prems(1) Pair have w: "walk_dirs s1 h rest create = (r, s')" by simp
      from Cons.IH [OF w wf1] show ?thesis .
    qed
  qed
qed

lemma walk_dirs_no_create: "walk_dirs s cur ps False = (r, s') \<Longrightarrow> s' = s"
proof (induction ps arbitrary: cur)
  case Nil
  then show ?case by simp
next
  case (Cons n rest)
  show ?case
  proof (cases "dirGetDirectoryHandle s cur n False")
    case (Pair r1 s1)
    then have s1: "s1 = s" by (rule dirGetDirectoryHandle_no_create)
    show ?thesis
    proof (cases r1)
      case (Inl err)
      with Cons.prems Pair s1 show ?thesis by auto
    next
      case (Inr h)
      with Cons.prems Pair s1 have "walk_dirs s h rest False = (r, s')" by simp
      from Cons.IH [OF this] show ?thesis .
    qed
  qed
qed

text \<open>A walk changes the store only at the directories it creates: locators that extend
  the start and are prefixes of the path walked.\<close>

lemma walk_dirs_frame:
  "walk_dirs s cur ps create = (r, s') \<Longrightarrow>
   \<not> (strict_prefix cur q \<and> prefix q (cur @ ps)) \<Longrightarrow> node_at s' q = node_at s q"
proof (induction ps arbitrary: s cur)
  case Nil
  then show ?case by simp
next
  case (Cons n rest)
  show ?case
  proof (cases "dirGetDirectoryHandle s cur n create")
    case (Pair r1 s1)
    have "q \<noteq> cur @ [n]"
      using Cons.prems(2) by (auto simp: strict_prefix_def)
    then have q1: "node_at s1 q = node_at s q"
      using dirGetDirectoryHandle_frame [OF Pair] by simp
    show ?thesis
    proof (cases r1)
      case (Inl err)
      with Cons.prems(1) Pair q1 show ?thesis by auto
    next
      case (Inr h)
      then have h: "h = cur @ [n]" using Pair dirGetDirectoryHandle_Inr(1) by blast
      with Cons.prems(1) Pair Inr have w: "walk_dirs s1 (cur @ [n]) rest create = (r, s')" by simp
      have "\<not> (strict_prefix (cur @ [n]) q \<and> prefix q ((cur @ [n]) @ rest))"
      proof
        assume a: "strict_prefix (cur @ [n]) q \<and> prefix q ((cur @ [n]) @ rest)"
        then have "strict_prefix cur q"
          by (meson prefix_order.dual_order.strict_trans1 prefix_order.less_le_not_le
              prefix_snoc prefixI strict_prefixI' append.right_neutral prefix_order.order_refl
              prefix_order.le_less_trans prefix_def)
        with a Cons.prems(2) show False by simp
      qed
      from Cons.IH [OF w this] q1 show ?thesis by simp
    qed
  qed
qed

lemma walk_dirs_Inr:
  "walk_dirs s cur ps create = (Inr h, s') \<Longrightarrow> node_at s cur = Some DirE \<Longrightarrow>
   h = cur @ ps \<and> list_all valid_name ps \<and> node_at s' (cur @ ps) = Some DirE"
proof (induction ps arbitrary: s cur)
  case Nil
  then show ?case by simp
next
  case (Cons n rest)
  from Cons.prems(1) obtain h1 s1 where
    step: "dirGetDirectoryHandle s cur n create = (Inr h1, s1)"
    and w: "walk_dirs s1 h1 rest create = (Inr h, s')"
    by (auto split: prod.splits sum.splits)
  note st = dirGetDirectoryHandle_Inr [OF step]
  from w st(1) have w': "walk_dirs s1 (cur @ [n]) rest create = (Inr h, s')" by simp
  from Cons.IH [OF w' st(4)] st(2) show ?case by simp
qed

section \<open>Creating a directory twice\<close>



lemma walk_dirs_append:
  "walk_dirs s cur (a @ b) create =
     (case walk_dirs s cur a create of
        (Inl e, s') \<Rightarrow> (Inl e, s')
      | (Inr h, s') \<Rightarrow> walk_dirs s' h b create)"
  by (induction a arbitrary: s cur) (auto split: prod.splits sum.splits)


lemma walk_dirs_file_in_way:
  assumes "wf_store s" and "node_at s (q) = Some (FileE bs)"
  shows "walk_dirs s [] (q @ r) create = (Inl TypeMismatchError, s)"
proof -
  note rf = resolve_file [OF assms]
  have q: "q = butlast q @ [last q]" using rf(1) by simp
  have par: "node_at s (butlast q) = Some DirE"
    using wf_store_lookup [OF assms(1) rf(4)] by simp
  have "dirGetDirectoryHandle s (butlast q) (last q) create = (Inl TypeMismatchError, s)"
    using rf(3) rf(4) par rf(1) by (simp add: dirGetDirectoryHandle_def)
  then have "walk_dirs s [] ((butlast q @ [last q]) @ r) create = (Inl TypeMismatchError, s)"
    using rf(2) [of create] by (simp add: walk_dirs_append del: append_butlast_last_id)
  with q show ?thesis by simp
qed


lemma mkdir_Inr:
  assumes "mkdir pf s path = (Inr (), s')"
  shows "getDirectory pf = Inr []" "walk_dirs s [] (parts path) True = (Inr (parts path), s')"
proof -
  from assms obtain root where r: "getDirectory pf = Inr root"
    by (auto simp: mkdir_def split: sum.splits)
  then show root: "getDirectory pf = Inr []"
    by (auto simp: getDirectory_def split: if_splits option.splits)
  with assms obtain h where w: "walk_dirs s [] (parts path) True = (Inr h, s')"
    by (auto simp: mkdir_def getDirectoryHandle_parts split: sum.splits prod.splits)
  with walk_dirs_Inr [OF w] show "walk_dirs s [] (parts path) True = (Inr (parts path), s')"
    by simp
qed




lemma wf_tree_store: "wf_store tree_store"
  by (simp add: tree_store_def wf_store_def valid_name_def node_at_def)




text \<open>
  C8, as stated for every path, fails at \<open>/a/..\<close> on the empty store, where no file is in
  the way: the first \<^verbatim>\<open>mkdir\<close> creates \<open>/a\<close> and then throws the \<open>TypeError\<close> for the name
  \<open>..\<close>, whose code is \<open>UNKNOWN_ERROR\<close>, and so does the second.
\<close>

theorem mkdir_invalid_name_counterexample:
  "mkdir opfs_page [] ''/a/..'' = (Inl NameTypeError, [([''a''], DirE)])
   \<and> mkdir opfs_page [([''a''], DirE)] ''/a/..'' = (Inl NameTypeError, [([''a''], DirE)])
   \<and> error_code NameTypeError = ''UNKNOWN_ERROR''
   \<and> code (fst (the (handler opfs_page 0 [] ''fs.mkdir'' (no_params\<lparr>arg_path := ''/a/..''\<rparr>))))
       = ''UNKNOWN_ERROR''"
  by code_simp

section \<open>Files: opening, creating, writing\<close>

lemma dirGetFileHandle_Inr:
  assumes "dirGetFileHandle s dir n create = (Inr h, s')"
  shows "h = dir @ [n]" "valid_name n" "node_at s dir = Some DirE"
    "\<exists>c. map_of s' (dir @ [n]) = Some (FileE c)"
    "(\<exists>c. map_of s (dir @ [n]) = Some (FileE c) \<and> s' = s)
     \<or> (map_of s (dir @ [n]) = None \<and> create \<and> s' = s @ [(dir @ [n], FileE [])])"
  using assms
  by (auto simp: dirGetFileHandle_def map_add_def split: if_splits option.splits entry.splits)

lemma dirGetFileHandle_Inl:
  "dirGetFileHandle s dir n create = (Inl e, s') \<Longrightarrow> s' = s"
  by (auto simp: dirGetFileHandle_def split: if_splits option.splits entry.splits)

lemma dirGetFileHandle_no_create:
  "dirGetFileHandle s dir n False = (r, s') \<Longrightarrow> s' = s"
  by (auto simp: dirGetFileHandle_def split: if_splits option.splits entry.splits)

lemma dirGetFileHandle_mono:
  "dirGetFileHandle s dir n create = (r, s') \<Longrightarrow> node_at s q = Some e \<Longrightarrow>
   node_at s' q = Some e"
  by (auto simp: dirGetFileHandle_def node_at_append_Some
      split: if_splits option.splits entry.splits)

lemma dirGetFileHandle_frame:
  "dirGetFileHandle s dir n create = (r, s') \<Longrightarrow> q \<noteq> dir @ [n] \<Longrightarrow>
   node_at s' q = node_at s q"
  by (auto simp: dirGetFileHandle_def node_at_extend
      split: if_splits option.splits entry.splits)

lemma dirGetFileHandle_wf:
  "dirGetFileHandle s dir n create = (r, s') \<Longrightarrow> wf_store s \<Longrightarrow> wf_store s'"
  by (auto simp: dirGetFileHandle_def wf_store_extend
      split: if_splits option.splits entry.splits)

lemma map_of_rewrite:
  "map_of (map (\<lambda>(p, e). if p = h then (p, v) else (p, e)) s) q
     = (if q = h then (case map_of s h of None \<Rightarrow> None | Some _ \<Rightarrow> Some v) else map_of s q)"
  by (induction s) (auto split: option.splits)

lemma map_fst_rewrite:
  "map fst (map (\<lambda>(p, e). if p = h then (p, v) else (p, e)) s) = map fst s"
  by (induction s) auto

lemma fileWrite_Inl: "fileWrite s h bs = (Inl e, s') \<Longrightarrow> s' = s"
  by (auto simp: fileWrite_def split: option.splits entry.splits)

lemma fileWrite_Inr:
  assumes "fileWrite s h bs = (Inr u, s')"
  shows "\<exists>c. map_of s h = Some (FileE c)"
    "map_of s' q = (if q = h then Some (FileE bs) else map_of s q)"
    "map fst s' = map fst s"
  using assms
  by (auto simp: fileWrite_def map_of_rewrite map_fst_rewrite split: option.splits entry.splits)

lemma fileWrite_node_at:
  assumes "fileWrite s h bs = (Inr u, s')" and "h \<noteq> []"
  shows "node_at s' q = (if q = h then Some (FileE bs) else node_at s q)"
  using fileWrite_Inr(2) [OF assms(1)] assms(2) by (simp add: node_at_def)

lemma fileWrite_wf:
  assumes "fileWrite s h bs = (r, s')" and "wf_store s"
  shows "wf_store s'"
proof (cases r)
  case (Inl e)
  with assms show ?thesis by (auto dest: fileWrite_Inl)
next
  case (Inr u)
  with assms(1) have w: "fileWrite s h bs = (Inr u, s')" by simp
  note fw = fileWrite_Inr [OF w]
  from fw(1) obtain c where c: "map_of s h = Some (FileE c)" ..
  have keys: "fst ` set s' = fst ` set s"
    using fw(3) by (metis set_map)
  have "\<And>p e. (p, e) \<in> set s' \<Longrightarrow>
          p \<noteq> [] \<and> list_all valid_name p \<and> node_at s' (butlast p) = Some DirE"
  proof -
    fix p e
    assume "(p, e) \<in> set s'"
    then have "p \<in> fst ` set s" using keys by force
    then obtain e0 where "map_of s p = Some e0"
      by (metis map_of_None_iff not_None_eq)
    from wf_store_lookup [OF assms(2) this]
    have old: "p \<noteq> []" "list_all valid_name p" "node_at s (butlast p) = Some DirE"
      by simp_all
    have hne: "h \<noteq> []"
      using wf_store_lookup [OF assms(2) c] by simp
    have "butlast p \<noteq> h"
      using old(3) c hne by (auto simp: node_at_def split: if_splits)
    then have "node_at s' (butlast p) = node_at s (butlast p)"
      using fileWrite_node_at [OF w hne] by simp
    with old show "p \<noteq> [] \<and> list_all valid_name p \<and> node_at s' (butlast p) = Some DirE"
      by simp
  qed
  moreover have "distinct (map fst s')"
    using fw(3) assms(2) by (simp add: wf_store_def)
  ultimately show ?thesis
    by (auto simp: wf_store_def list_all_iff)
qed

section \<open>Probing a path\<close>

lemma getHandleAtPath_probe:
  "getHandleAtPath s root p None None = (r, s') \<Longrightarrow> s' = s"
  by (auto simp: getHandleAtPath_def Let_def split: if_splits prod.splits sum.splits
      dest!: walk_dirs_no_create dirGetDirectoryHandle_no_create dirGetFileHandle_no_create)

lemma getHandleAtPath_Inr:
  assumes "getHandleAtPath s [] p None None = (Inr (h, k), s')"
  shows "h = parts p"
    and "k = KDirectory \<Longrightarrow> node_at s (parts p) = Some DirE"
    and "k = KFile \<Longrightarrow> \<exists>c. map_of s (parts p) = Some (FileE c)"
proof -
  have all: "h = parts p \<and> (k = KDirectory \<longrightarrow> node_at s (parts p) = Some DirE)
       \<and> (k = KFile \<longrightarrow> (\<exists>c. map_of s (parts p) = Some (FileE c)))"
  proof (cases "parts p = []")
    case True
    with assms show ?thesis by (simp add: getHandleAtPath_def)
  next
    case False
    then have split: "butlast (parts p) @ [last (parts p)] = parts p" by simp
    from assms False obtain cur s1 where
      w: "walk_dirs s [] (butlast (parts p)) False = (Inr cur, s1)"
      by (auto simp: getHandleAtPath_def Let_def split: prod.splits sum.splits)
    have s1: "s1 = s" using walk_dirs_no_create [OF w] .
    have cur: "cur = butlast (parts p)" using walk_dirs_Inr [OF w] by simp
    show ?thesis
    proof (cases "dirGetDirectoryHandle s cur (last (parts p)) False")
      case (Pair r1 s2)
      have s2: "s2 = s" using dirGetDirectoryHandle_no_create [OF Pair] .
      show ?thesis
      proof (cases r1)
        case (Inr h1)
        with assms False w s1 Pair have "h = h1" "k = KDirectory"
          by (auto simp: getHandleAtPath_def Let_def)
        moreover note d = dirGetDirectoryHandle_Inr [OF Pair [unfolded Inr]]
        ultimately show ?thesis
          using cur split s2 by (simp del: append_butlast_last_id)
      next
        case (Inl err)
        with assms False w s1 Pair s2 obtain s3 where
          f: "dirGetFileHandle s cur (last (parts p)) False = (Inr h, s3)" and k: "k = KFile"
          by (auto simp: getHandleAtPath_def Let_def split: prod.splits sum.splits)
        have s3: "s3 = s" using dirGetFileHandle_no_create [OF f] .
        note d = dirGetFileHandle_Inr [OF f]
        show ?thesis
          using d(1) d(4) k cur split s3 by (simp del: append_butlast_last_id)
      qed
    qed
  qed
  from all show "h = parts p" by simp
  from all show "k = KDirectory \<Longrightarrow> node_at s (parts p) = Some DirE" by simp
  from all show "k = KFile \<Longrightarrow> \<exists>c. map_of s (parts p) = Some (FileE c)" by simp
qed

lemma getHandleAtPath_file:
  assumes "wf_store s" and "node_at s (parts p) = Some (FileE c)"
  shows "getHandleAtPath s [] p None None = (Inr (parts p, KFile), s)"
proof -
  note r = resolve_file [OF assms]
  have sp: "butlast (parts p) @ [last (parts p)] = parts p" using r(1) by simp
  have par: "node_at s (butlast (parts p)) = Some DirE"
    using wf_store_lookup [OF assms(1) r(4)] by simp
  have m: "map_of s (butlast (parts p) @ [last (parts p)]) = Some (FileE c)"
    using r(4) sp by simp
  have d: "dirGetDirectoryHandle s (butlast (parts p)) (last (parts p)) False
             = (Inl TypeMismatchError, s)"
    using r(3) par m by (simp add: dirGetDirectoryHandle_def del: append_butlast_last_id)
  have f: "dirGetFileHandle s (butlast (parts p)) (last (parts p)) False
             = (Inr (parts p), s)"
    using r(3) par m sp by (simp add: dirGetFileHandle_def del: append_butlast_last_id)
  show ?thesis
    using r(1) r(2) [of False] d f by (simp add: getHandleAtPath_def Let_def)
qed

lemma getHandleAtPath_dir:
  assumes "wf_store s" and "node_at s (parts p) = Some DirE"
  shows "getHandleAtPath s [] p None None = (Inr (parts p, KDirectory), s)"
proof (cases "parts p = []")
  case True
  then show ?thesis by (simp add: getHandleAtPath_def)
next
  case False
  then have sp: "butlast (parts p) @ [last (parts p)] = parts p" by simp
  have m: "map_of s (parts p) = Some DirE" using assms(2) False by (simp add: node_at_def)
  have par: "node_at s (butlast (parts p)) = Some DirE"
    using wf_store_lookup [OF assms(1) m] by simp
  have vn: "valid_name (last (parts p))"
    using wf_store_lookup [OF assms(1) m] False by (simp add: list_all_iff)
  have w: "walk_dirs s [] (butlast (parts p)) False = (Inr (butlast (parts p)), s)"
    using walk_dirs_existing [OF assms(1), of "[]" "butlast (parts p)" False] par by simp
  have m': "map_of s (butlast (parts p) @ [last (parts p)]) = Some DirE"
    using m sp by simp
  have d: "dirGetDirectoryHandle s (butlast (parts p)) (last (parts p)) False
             = (Inr (parts p), s)"
    using vn par m' sp by (simp add: dirGetDirectoryHandle_def del: append_butlast_last_id)
  show ?thesis
    using False w d by (simp add: getHandleAtPath_def Let_def)
qed

section \<open>The overwrite flag of a copy\<close>


lemma copyEntry_overwrite_unused:
  "copyEntry pf fuel s from to ow = copyEntry pf fuel s from to ow'"
proof (induction fuel arbitrary: s "from" to)
  case 0
  show ?case by simp
next
  case (Suc fuel)
  have body: "(\<lambda>name s'. copyEntry pf fuel s' (from @ ''/'' @ name) (to @ ''/'' @ name) ow)
            = (\<lambda>name s'. copyEntry pf fuel s' (from @ ''/'' @ name) (to @ ''/'' @ name) ow')"
    using Suc.IH by blast
  show ?case
    unfolding copyEntry.simps body ..
qed

lemma copyEntry_file_over_file:
  assumes "root_opens pf" and "wf_store s"
    and src: "node_at s (parts from) = Some (FileE c)"
    and dst: "node_at s (parts to) = Some (FileE d)"
  shows "\<exists>s'. copyEntry pf (Suc fuel) s from to ow = Some (Inr (), s')
              \<and> node_at s' (parts to) = Some (FileE c)
              \<and> (\<forall>q. q \<noteq> parts to \<longrightarrow> node_at s' q = node_at s q)"
proof -
  note rs = resolve_file [OF assms(2) src]
  note rd = resolve_file [OF assms(2) dst]
  have g: "fileGetFile s (parts from) = Inr c"
    using rs(4) by (simp add: fileGetFile_def)
  obtain s' where w: "fileWrite s (parts to) c = (Inr (), s')"
    using rd(4) by (simp add: fileWrite_def)
  have run: "copyEntry pf (Suc fuel) s from to ow = Some (Inr (), s')"
    using getDirectory_root_opens [OF assms(1)] getHandleAtPath_file [OF assms(2) src] g
      getFileHandle_existing [OF assms(2) dst, of True] w
    by simp
  show ?thesis
    using run fileWrite_node_at [OF w rd(1)] by simp
qed

text \<open>
  C6. \<^verbatim>\<open>copyEntry\<close> returns the same outcome and the same store for \<open>overwrite\<close> true and
  false, whatever the store, the paths and the number of nested calls allowed; so does
  the handler's \<^verbatim>\<open>fs.copy\<close> for any two values of the parameter, given or left out. When
  source and destination are both existing files, the copy succeeds and the destination
  holds the bytes of the source afterwards, whatever the flag.
\<close>

theorem copy_ignores_overwrite:
  "copyEntry pf fuel s from to True = copyEntry pf fuel s from to False
   \<and> handler pf fuel s ''fs.copy'' (ps\<lparr>arg_overwrite := a\<rparr>)
       = handler pf fuel s ''fs.copy'' (ps\<lparr>arg_overwrite := b\<rparr>)
   \<and> (root_opens pf \<and> wf_store s \<and> node_at s (parts from) = Some (FileE c)
        \<and> node_at s (parts to) = Some (FileE d) \<longrightarrow>
        (\<exists>s'. copyEntry pf (Suc fuel) s from to ow = Some (Inr (), s')
              \<and> node_at s' (parts to) = Some (FileE c)))"
proof (intro conjI impI)
  show "copyEntry pf fuel s from to True = copyEntry pf fuel s from to False"
    by (rule copyEntry_overwrite_unused)
  show "handler pf fuel s ''fs.copy'' (ps\<lparr>arg_overwrite := a\<rparr>)
       = handler pf fuel s ''fs.copy'' (ps\<lparr>arg_overwrite := b\<rparr>)"
    using copyEntry_overwrite_unused [of pf fuel s "arg_from ps" "arg_to ps" "or_false a" "or_false b"]
    by (simp add: handler_def del: copyEntry.simps)
  assume "root_opens pf \<and> wf_store s \<and> node_at s (parts from) = Some (FileE c)
        \<and> node_at s (parts to) = Some (FileE d)"
  then show "\<exists>s'. copyEntry pf (Suc fuel) s from to ow = Some (Inr (), s')
              \<and> node_at s' (parts to) = Some (FileE c)"
    using copyEntry_file_over_file [of pf s "from" c to d fuel ow] by blast
qed

lemma wf_two_files: "wf_store two_files"
  by (simp add: two_files_def wf_store_def valid_name_def node_at_def)

lemma parts_g: "parts ''/g'' = [''g'']"
  by (simp add: parts_no_sep)

theorem copy_ignores_overwrite_witness:
  "root_opens opfs_page \<and> wf_store two_files
   \<and> node_at two_files (parts ''/f'') = Some (FileE [0x61, 0x62, 0x63])
   \<and> node_at two_files (parts ''/g'') = Some (FileE [0x7A])
   \<and> (\<exists>s'. copyEntry opfs_page (Suc 0) two_files ''/f'' ''/g'' False = Some (Inr (), s')
            \<and> node_at s' (parts ''/g'') = Some (FileE [0x61, 0x62, 0x63]))"
proof -
  have f: "node_at two_files (parts ''/f'') = Some (FileE [0x61, 0x62, 0x63])"
    unfolding parts_f by (simp add: two_files_def node_at_def)
  have g: "node_at two_files (parts ''/g'') = Some (FileE [0x7A])"
    unfolding parts_g by (simp add: two_files_def node_at_def)
  show ?thesis
    using copy_ignores_overwrite [of opfs_page 0 two_files "''/f''" "''/g''" None no_params None
        "[0x61, 0x62, 0x63]" "[0x7A]" False]
      root_opens_page wf_two_files f g
    by blast
qed

section \<open>Locators apart from each other, and what lies below an entry\<close>

lemma apart_extend:
  "\<not> prefix F T \<Longrightarrow> \<not> prefix T F \<Longrightarrow> \<not> prefix (F @ x) (T @ y)"
proof
  assume a: "\<not> prefix F T" "\<not> prefix T F" and p: "prefix (F @ x) (T @ y)"
  have "prefix F (T @ y)"
    using p by (meson append_prefixD)
  moreover have "prefix T (T @ y)" by simp
  ultimately have "prefix F T \<or> prefix T F"
    by (rule prefix_same_cases)
  with a show False by simp
qed

lemma parts_child:
  "valid_name n \<Longrightarrow> parts (path @ ''/'' @ n) = parts path @ [n]"
  by (simp add: valid_name_def parts_append_sep parts_no_sep)

lemma wf_ancestors:
  assumes "wf_store s" and "node_at s p = Some e" and "prefix q p" and "q \<noteq> p"
  shows "node_at s q = Some DirE"
proof -
  from assms(3,4) obtain r where "p = q @ r" "r \<noteq> []"
    by (auto simp: prefix_def)
  with wf_prefix_dirs [OF assms(1), of q r e] assms(2) show ?thesis by simp
qed

lemma wf_below_file:
  assumes "wf_store s" and "node_at s p = Some (FileE c)" and "rel \<noteq> []"
  shows "node_at s (p @ rel) = None"
proof (rule ccontr)
  assume "node_at s (p @ rel) \<noteq> None"
  then obtain e where "node_at s (p @ rel) = Some e" by auto
  from wf_prefix_dirs [OF assms(1) this assms(3)] assms(2) show False by simp
qed

lemma wf_below_nothing:
  assumes "wf_store s" and "node_at s p = None"
  shows "node_at s (p @ rel) = None"
proof (rule ccontr)
  assume "node_at s (p @ rel) \<noteq> None"
  then obtain e where e: "node_at s (p @ rel) = Some e" by auto
  show False
  proof (cases "rel = []")
    case True
    with e assms(2) show ?thesis by simp
  next
    case False
    from wf_prefix_dirs [OF assms(1) e False] assms(2) show ?thesis by simp
  qed
qed

section \<open>Opening a file for writing, creating a directory\<close>

lemma getFileHandle_Inr:
  assumes "getFileHandle s [] p create = (Inr h, s2)"
  shows "h = parts p" "parts p \<noteq> []" "\<exists>c. map_of s2 (parts p) = Some (FileE c)"
    "\<And>q e. node_at s q = Some e \<Longrightarrow> node_at s2 q = Some e"
    "\<And>q. \<not> prefix q (parts p) \<Longrightarrow> node_at s2 q = node_at s q"
    "wf_store s \<Longrightarrow> wf_store s2"
proof -
  from assms show ne: "parts p \<noteq> []"
    by (auto simp: getFileHandle_def Let_def split: if_splits)
  then have sp: "butlast (parts p) @ [last (parts p)] = parts p" by simp
  from assms ne obtain cur s1 where
    w: "walk_dirs s [] (butlast (parts p)) create = (Inr cur, s1)"
    and f: "dirGetFileHandle s1 cur (last (parts p)) create = (Inr h, s2)"
    by (auto simp: getFileHandle_def Let_def split: prod.splits sum.splits)
  have cur: "cur = butlast (parts p)" using walk_dirs_Inr [OF w] by simp
  note d = dirGetFileHandle_Inr [OF f]
  show "h = parts p" using d(1) cur sp by simp
  show "\<exists>c. map_of s2 (parts p) = Some (FileE c)"
    using d(4) cur sp by simp
  show "\<And>q e. node_at s q = Some e \<Longrightarrow> node_at s2 q = Some e"
    using walk_dirs_mono [OF w] dirGetFileHandle_mono [OF f] by blast
  show "\<And>q. \<not> prefix q (parts p) \<Longrightarrow> node_at s2 q = node_at s q"
  proof -
    fix q
    assume np: "\<not> prefix q (parts p)"
    then have "q \<noteq> cur @ [last (parts p)]" using cur sp by auto
    then have a: "node_at s2 q = node_at s1 q"
      using dirGetFileHandle_frame [OF f] by simp
    have "\<not> prefix q (butlast (parts p))"
      using np sp by (metis prefix_order.trans prefixI)
    then have "node_at s1 q = node_at s q"
      using walk_dirs_frame [OF w, of q] by simp
    with a show "node_at s2 q = node_at s q" by simp
  qed
  show "wf_store s \<Longrightarrow> wf_store s2"
    using walk_dirs_wf [OF w] dirGetFileHandle_wf [OF f] by blast
qed

lemma mkdir_effect:
  assumes "mkdir pf s p = (Inr u, s2)"
  shows "node_at s2 (parts p) = Some DirE"
    "\<And>q e. node_at s q = Some e \<Longrightarrow> node_at s2 q = Some e"
    "\<And>q. \<not> prefix q (parts p) \<Longrightarrow> node_at s2 q = node_at s q"
    "wf_store s \<Longrightarrow> wf_store s2"
proof -
  from assms have m: "mkdir pf s p = (Inr (), s2)" by simp
  note mi = mkdir_Inr [OF m]
  show "node_at s2 (parts p) = Some DirE"
    using walk_dirs_Inr [OF mi(2)] by simp
  show "\<And>q e. node_at s q = Some e \<Longrightarrow> node_at s2 q = Some e"
    using walk_dirs_mono [OF mi(2)] by blast
  show "\<And>q. \<not> prefix q (parts p) \<Longrightarrow> node_at s2 q = node_at s q"
    using walk_dirs_frame [OF mi(2)] by simp
  show "wf_store s \<Longrightarrow> wf_store s2"
    using walk_dirs_wf [OF mi(2)] by blast
qed

section \<open>The names a directory lists\<close>

lemma dirEntries_names:
  assumes "dirEntries pf s d = Inr ents" and "wf_store s"
  shows "distinct (map fst ents)"
    and "set (map fst ents) = {n. map_of s (d @ [n]) \<noteq> None}"
    and "list_all valid_name (map fst ents)"
    and "set ents = {(n, k). \<exists>e. map_of s (d @ [n]) = Some e \<and> k = kind_of e}"
proof -
  let ?ch = "filter (\<lambda>(p, e). p \<noteq> [] \<and> butlast p = d) s"
  let ?raw = "map (\<lambda>(p, e). (last p, kind_of e)) ?ch"
  from assms(1) have ents: "ents = sort_key (\<lambda>(n, k). listing_rank pf (d @ [n])) ?raw"
    by (auto simp: dirEntries_def split: if_splits)
  have se: "set ents = set ?raw" unfolding ents by simp
  have names: "map fst ?raw = map (\<lambda>(p, e). last p) ?ch"
    by (simp add: case_prod_beta comp_def)
  have names': "map fst ?raw = map last (map fst ?ch)"
    unfolding names by (simp add: case_prod_beta comp_def)
  have dk: "distinct (map fst ?ch)"
    using assms(2) by (simp add: wf_store_def distinct_map_filter)
  have inj: "inj_on last (set (map fst ?ch))"
  proof (rule inj_onI)
    fix p q
    assume "p \<in> set (map fst ?ch)" "q \<in> set (map fst ?ch)" "last p = last q"
    then have "p \<noteq> []" "butlast p = d" "q \<noteq> []" "butlast q = d" "last p = last q"
      by auto
    then show "p = q"
      by (metis append_butlast_last_id)
  qed
  have draw: "distinct (map fst ?raw)"
    unfolding names' using dk inj distinct_map [of last "map fst ?ch"] by blast
  then have "distinct ?raw" "inj_on fst (set ?raw)"
    unfolding distinct_map by blast+
  then have "distinct ents" "inj_on fst (set ents)"
    unfolding ents by simp_all
  then show "distinct (map fst ents)"
    unfolding distinct_map by blast
  show sk: "set ents = {(n, k). \<exists>e. map_of s (d @ [n]) = Some e \<and> k = kind_of e}"
  proof (intro set_eqI iffI)
    fix x
    assume "x \<in> set ents"
    then have "x \<in> set ?raw" using se by simp
    then obtain p e where pe: "(p, e) \<in> set s" "p \<noteq> []" "butlast p = d"
      and x: "x = (last p, kind_of e)"
      by auto
    then have "p = d @ [last p]" by (metis append_butlast_last_id)
    with pe(1) have "(d @ [last p], e) \<in> set s" by simp
    then have "map_of s (d @ [last p]) = Some e"
      using assms(2) by (simp add: wf_store_def)
    with x show "x \<in> {(n, k). \<exists>e. map_of s (d @ [n]) = Some e \<and> k = kind_of e}"
      by auto
  next
    fix x
    assume "x \<in> {(n, k). \<exists>e. map_of s (d @ [n]) = Some e \<and> k = kind_of e}"
    then obtain n e where x: "x = (n, kind_of e)" and m: "map_of s (d @ [n]) = Some e"
      by auto
    from m have "(d @ [n], e) \<in> set s" by (rule map_of_SomeD)
    then have "(d @ [n], e) \<in> set ?ch" by simp
    then have "(\<lambda>(p, e). (last p, kind_of e)) (d @ [n], e) \<in> set ?raw"
      unfolding set_map by (rule imageI)
    then show "x \<in> set ents"
      using se x by simp
  qed
  show sm: "set (map fst ents) = {n. map_of s (d @ [n]) \<noteq> None}"
    unfolding set_map sk by force
  have "\<And>n. n \<in> set (map fst ents) \<Longrightarrow> valid_name n"
  proof -
    fix n
    assume "n \<in> set (map fst ents)"
    with sm obtain e where "map_of s (d @ [n]) = Some e" by auto
    from wf_store_lookup [OF assms(2) this] show "valid_name n" by simp
  qed
  then show "list_all valid_name (map fst ents)"
    by (simp add: list_all_iff)
qed

section \<open>A copy between locators that are apart\<close>


lemma copy_step_frame:
  assumes c: "copied s2 s3 (F @ [n]) (T @ [n])" and wf: "wf_store s2"
    and T: "node_at s2 T = Some DirE" and q: "\<not> prefix (T @ [n]) q"
  shows "node_at s3 q = node_at s2 q"
proof (cases "prefix q (T @ [n])")
  case True
  with q have pq: "prefix q T" by auto
  have "node_at s2 q = Some DirE"
  proof (cases "q = T")
    case True
    with T show ?thesis by simp
  next
    case False
    from wf_ancestors [OF wf T pq False] show ?thesis .
  qed
  with c q show ?thesis by (simp add: copied_def)
next
  case False
  with c q show ?thesis by (simp add: copied_def)
qed

lemma copy_loop:
  assumes IH: "\<And>s from to s' u. copyEntry pf fuel s from to ow = Some (Inr u, s') \<Longrightarrow>
       wf_store s \<Longrightarrow> \<not> prefix (parts from) (parts to) \<Longrightarrow> \<not> prefix (parts to) (parts from) \<Longrightarrow>
       copied s s' (parts from) (parts to)"
    and ap: "\<not> prefix F T" "\<not> prefix T F"
    and F: "F = parts from" and T: "T = parts to"
  shows "for_each (\<lambda>name s'. copyEntry pf fuel s' (from @ ''/'' @ name) (to @ ''/'' @ name) ow)
           names s2 = Some (Inr u, s') \<Longrightarrow>
     wf_store s2 \<Longrightarrow> list_all valid_name names \<Longrightarrow> distinct names \<Longrightarrow>
     node_at s2 T = Some DirE \<Longrightarrow>
     wf_store s'
     \<and> (\<forall>q. (\<forall>n \<in> set names. \<not> prefix (T @ [n]) q) \<longrightarrow> node_at s' q = node_at s2 q)
     \<and> (\<forall>n \<in> set names. \<forall>rel.
          node_at s' (T @ n # rel)
            = (case node_at s2 (F @ n # rel) of
                 Some e \<Rightarrow> Some e
               | None \<Rightarrow> node_at s2 (T @ n # rel)))"
proof (induction names arbitrary: s2)
  case Nil
  then show ?case by simp
next
  case (Cons n names)
  let ?body = "\<lambda>name s'. copyEntry pf fuel s' (from @ ''/'' @ name) (to @ ''/'' @ name) ow"
  from Cons.prems(1) obtain u1 s3 where
    step: "copyEntry pf fuel s2 (from @ ''/'' @ n) (to @ ''/'' @ n) ow = Some (Inr u1, s3)"
    and rest: "for_each ?body names s3 = Some (Inr u, s')"
    by (auto split: option.splits prod.splits sum.splits)
  have vn: "valid_name n" using Cons.prems(3) by simp
  have pF: "parts (from @ ''/'' @ n) = F @ [n]" and pT: "parts (to @ ''/'' @ n) = T @ [n]"
    using parts_child [OF vn] F T by simp_all
  have ap1: "\<not> prefix (F @ [n]) (T @ [n])" using apart_extend [OF ap(1) ap(2)] .
  have ap2: "\<not> prefix (T @ [n]) (F @ [n])" using apart_extend [OF ap(2) ap(1)] .
  have c: "copied s2 s3 (F @ [n]) (T @ [n])"
    using IH [OF step Cons.prems(2)] ap1 ap2 unfolding pF pT by simp
  have fr: "\<And>q. \<not> prefix (T @ [n]) q \<Longrightarrow> node_at s3 q = node_at s2 q"
    using copy_step_frame [OF c Cons.prems(2) Cons.prems(5)] .
  have T3: "node_at s3 T = Some DirE"
    using fr [of T] Cons.prems(5) by simp
  have wf3: "wf_store s3" using c by (simp add: copied_def)
  have vns: "list_all valid_name names" and dn: "distinct names" and nn: "n \<notin> set names"
    using Cons.prems(3,4) by simp_all
  note loop = Cons.IH [OF rest wf3 vns dn T3]
  from loop have wf': "wf_store s'" by simp
  from loop have L1: "\<And>q. (\<forall>m \<in> set names. \<not> prefix (T @ [m]) q) \<Longrightarrow> node_at s' q = node_at s3 q"
    by simp
  from loop have L2: "\<And>m rel. m \<in> set names \<Longrightarrow>
      node_at s' (T @ m # rel)
        = (case node_at s3 (F @ m # rel) of Some e \<Rightarrow> Some e | None \<Rightarrow> node_at s3 (T @ m # rel))"
    by simp
  have G2: "\<forall>q. (\<forall>m \<in> set (n # names). \<not> prefix (T @ [m]) q) \<longrightarrow> node_at s' q = node_at s2 q"
    using L1 fr by simp
  have G3: "\<forall>m \<in> set (n # names). \<forall>rel.
          node_at s' (T @ m # rel)
            = (case node_at s2 (F @ m # rel) of
                 Some e \<Rightarrow> Some e
               | None \<Rightarrow> node_at s2 (T @ m # rel))"
  proof (intro ballI allI)
    fix m rel
    assume m: "m \<in> set (n # names)"
    show "node_at s' (T @ m # rel)
            = (case node_at s2 (F @ m # rel) of
                 Some e \<Rightarrow> Some e
               | None \<Rightarrow> node_at s2 (T @ m # rel))"
    proof (cases "m = n")
      case True
      have "\<forall>m' \<in> set names. \<not> prefix (T @ [m']) (T @ n # rel)"
        using nn by auto
      then have a: "node_at s' (T @ n # rel) = node_at s3 (T @ n # rel)"
        using L1 by blast
      have b: "node_at s3 (T @ n # rel)
            = (case node_at s2 (F @ n # rel) of
                 Some e \<Rightarrow> Some e
               | None \<Rightarrow> node_at s2 (T @ n # rel))"
      proof (cases "node_at s2 (F @ n # rel)")
        case None
        then have "node_at s2 ((F @ [n]) @ rel) = None" by simp
        with c have "node_at s3 ((T @ [n]) @ rel) = node_at s2 ((T @ [n]) @ rel)"
          unfolding copied_def by blast
        with None show ?thesis by simp
      next
        case (Some e)
        then have "node_at s2 ((F @ [n]) @ rel) = Some e" by simp
        with c have "node_at s3 ((T @ [n]) @ rel) = Some e"
          unfolding copied_def by blast
        with Some show ?thesis by simp
      qed
      show ?thesis unfolding True using a b by simp
    next
      case False
      with m have mn: "m \<in> set names" by simp
      have "\<not> prefix (T @ [n]) (F @ m # rel)"
        using apart_extend [OF ap(2) ap(1)] .
      then have a: "node_at s3 (F @ m # rel) = node_at s2 (F @ m # rel)"
        by (rule fr)
      have "\<not> prefix (T @ [n]) (T @ m # rel)"
        using False by simp
      then have b: "node_at s3 (T @ m # rel) = node_at s2 (T @ m # rel)"
        by (rule fr)
      show ?thesis
        using L2 [OF mn, of rel] a b by (simp split: option.split)
    qed
  qed
  from wf' G2 G3 show ?case by blast
qed

lemma copyEntry_copied:
  "copyEntry pf fuel s from to ow = Some (Inr u, s') \<Longrightarrow> wf_store s \<Longrightarrow>
   \<not> prefix (parts from) (parts to) \<Longrightarrow> \<not> prefix (parts to) (parts from) \<Longrightarrow>
   copied s s' (parts from) (parts to)"
proof (induction fuel arbitrary: s "from" to s' u)
  case 0
  then show ?case by simp
next
  case (Suc fuel)
  let ?F = "parts from" and ?T = "parts to"
  note wf = Suc.prems(2) and ap = Suc.prems(3,4)
  from Suc.prems(1) obtain root where root: "getDirectory pf = Inr root"
    by (auto split: sum.splits)
  then have root_nil: "root = []"
    by (auto simp: getDirectory_def split: if_splits option.splits)
  from Suc.prems(1) root root_nil obtain h k s1 where
    probe: "getHandleAtPath s [] from None None = (Inr (h, k), s1)"
    by (auto split: sum.splits prod.splits)
  have s1: "s1 = s" using getHandleAtPath_probe [OF probe] .
  note hk = getHandleAtPath_Inr [OF probe]
  show ?case
  proof (cases k)
    case KFile
    from hk(3) [OF KFile] obtain c where c: "map_of s ?F = Some (FileE c)" ..
    then have Fne: "?F \<noteq> []" using wf_store_lookup [OF wf] by blast
    have cF: "node_at s ?F = Some (FileE c)" using c Fne by (simp add: node_at_def)
    have get: "fileGetFile s h = Inr c" using c hk(1) by (simp add: fileGetFile_def)
    from Suc.prems(1) root root_nil probe s1 KFile get obtain dest s2 where
      open_dest: "getFileHandle s [] to True = (Inr dest, s2)"
      and wr: "fileWrite s2 dest c = (Inr u, s')"
      by (auto split: sum.splits prod.splits)
    note g = getFileHandle_Inr [OF open_dest]
    have wr': "fileWrite s2 ?T c = (Inr u, s')" using wr g(1) by simp
    have n': "\<And>q. node_at s' q = (if q = ?T then Some (FileE c) else node_at s2 q)"
      using fileWrite_node_at [OF wr' g(2)] .
    have wf2: "wf_store s2" using g(6) [OF wf] .
    have wf': "wf_store s'" using fileWrite_wf [OF wr' wf2] .
    have E3: "\<forall>rel e. node_at s (?F @ rel) = Some e \<longrightarrow> node_at s' (?T @ rel) = Some e"
    proof (intro allI impI)
      fix rel e
      assume a: "node_at s (?F @ rel) = Some e"
      have "rel = []"
      proof (rule ccontr)
        assume "rel \<noteq> []"
        from wf_below_file [OF wf cF this] a show False by simp
      qed
      with a cF n' show "node_at s' (?T @ rel) = Some e" by simp
    qed
    have E4: "\<forall>rel. node_at s (?F @ rel) = None \<longrightarrow> node_at s' (?T @ rel) = node_at s (?T @ rel)"
    proof (intro allI impI)
      fix rel
      assume a: "node_at s (?F @ rel) = None"
      with cF have rel: "rel \<noteq> []" by auto
      then have "node_at s' (?T @ rel) = node_at s2 (?T @ rel)" using n' by simp
      moreover have "node_at s2 (?T @ rel) = node_at s (?T @ rel)"
        using g(5) [of "?T @ rel"] rel by simp
      ultimately show "node_at s' (?T @ rel) = node_at s (?T @ rel)" by simp
    qed
    have E2a: "\<forall>q e. \<not> prefix ?T q \<longrightarrow> node_at s q = Some e \<longrightarrow> node_at s' q = Some e"
      using n' g(4) by auto
    have E2b: "\<forall>q. \<not> prefix ?T q \<longrightarrow> \<not> prefix q ?T \<longrightarrow> node_at s' q = node_at s q"
      using n' g(5) by auto
    show ?thesis
      unfolding copied_def using wf' E3 E4 E2a E2b by blast
  next
    case KDirectory
    have dF: "node_at s ?F = Some DirE" using hk(2) [OF KDirectory] .
    from Suc.prems(1) root root_nil probe s1 KDirectory obtain u2 s2 ents where
      mk: "mkdir pf s to = (Inr u2, s2)"
      and ents: "dirEntries pf s2 h = Inr ents"
      and loop: "for_each (\<lambda>name s'. copyEntry pf fuel s' (from @ ''/'' @ name) (to @ ''/'' @ name) ow)
                   (map fst ents) s2 = Some (Inr u, s')"
      by (auto split: sum.splits prod.splits)
    note m = mkdir_effect [OF mk]
    have wf2: "wf_store s2" using m(4) [OF wf] .
    have ents': "dirEntries pf s2 ?F = Inr ents" using ents hk(1) by simp
    note nm = dirEntries_names [OF ents' wf2]
    have srcsame: "\<And>rel. node_at s2 (?F @ rel) = node_at s (?F @ rel)"
    proof -
      fix rel
      have "\<not> prefix (?F @ rel) (?T @ [])" using apart_extend [OF ap(1) ap(2)] .
      then show "node_at s2 (?F @ rel) = node_at s (?F @ rel)"
        using m(3) by simp
    qed
    have lp: "wf_store s'
       \<and> (\<forall>q. (\<forall>n \<in> set (map fst ents). \<not> prefix (?T @ [n]) q) \<longrightarrow> node_at s' q = node_at s2 q)
       \<and> (\<forall>n \<in> set (map fst ents). \<forall>rel.
            node_at s' (?T @ n # rel)
              = (case node_at s2 (?F @ n # rel) of
                   Some e \<Rightarrow> Some e
                 | None \<Rightarrow> node_at s2 (?T @ n # rel)))"
      by (rule copy_loop [OF _ ap refl refl loop wf2 nm(3) nm(1) m(1)]) (rule Suc.IH)
    from lp have wf': "wf_store s'" by (rule conjunct1)
    have L1: "\<And>q. (\<forall>n \<in> set (map fst ents). \<not> prefix (?T @ [n]) q) \<Longrightarrow>
         node_at s' q = node_at s2 q"
      using lp by blast
    note L2 = lp [THEN conjunct2, THEN conjunct2, rule_format]
    have outside: "\<And>q. \<not> prefix ?T q \<Longrightarrow> node_at s' q = node_at s2 q"
    proof -
      fix q
      assume "\<not> prefix ?T q"
      then have "\<forall>n \<in> set (map fst ents). \<not> prefix (?T @ [n]) q"
        by (meson append_prefixD)
      then show "node_at s' q = node_at s2 q" by (rule L1)
    qed
    have atT: "node_at s' ?T = Some DirE"
      using L1 [of ?T] m(1) by simp
    have child: "\<And>n. n \<in> set (map fst ents) \<longleftrightarrow> node_at s (?F @ [n]) \<noteq> None"
      using nm(2) srcsame [of "[n]" for n] by (simp add: set_eq_iff)
    have E3: "\<forall>rel e. node_at s (?F @ rel) = Some e \<longrightarrow> node_at s' (?T @ rel) = Some e"
    proof (intro allI impI)
      fix rel e
      assume a: "node_at s (?F @ rel) = Some e"
      show "node_at s' (?T @ rel) = Some e"
      proof (cases rel)
        case Nil
        with a dF atT show ?thesis by simp
      next
        case (Cons n rel')
        have "node_at s (?F @ [n]) \<noteq> None"
        proof (cases "rel' = []")
          case True
          with a Cons show ?thesis by simp
        next
          case False
          from wf_prefix_dirs [OF wf _ False, of "?F @ [n]" e] a Cons show ?thesis by simp
        qed
        then have "n \<in> set (map fst ents)" using child by simp
        from L2 [OF this, of rel'] a Cons srcsame [of "n # rel'"] show ?thesis by simp
      qed
    qed
    have E4: "\<forall>rel. node_at s (?F @ rel) = None \<longrightarrow> node_at s' (?T @ rel) = node_at s (?T @ rel)"
    proof (intro allI impI)
      fix rel
      assume a: "node_at s (?F @ rel) = None"
      with dF obtain n rel' where rel: "rel = n # rel'" by (cases rel) auto
      have unch: "node_at s2 (?T @ rel) = node_at s (?T @ rel)"
        using m(3) [of "?T @ rel"] rel by simp
      show "node_at s' (?T @ rel) = node_at s (?T @ rel)"
      proof (cases "n \<in> set (map fst ents)")
        case True
        from L2 [OF True, of rel'] a rel srcsame [of "n # rel'"] unch show ?thesis by simp
      next
        case False
        then have "\<forall>m \<in> set (map fst ents). \<not> prefix (?T @ [m]) (?T @ rel)"
          using rel by auto
        from L1 [OF this] unch show ?thesis by simp
      qed
    qed
    have E2a: "\<forall>q e. \<not> prefix ?T q \<longrightarrow> node_at s q = Some e \<longrightarrow> node_at s' q = Some e"
      using outside m(2) by simp
    have E2b: "\<forall>q. \<not> prefix ?T q \<longrightarrow> \<not> prefix q ?T \<longrightarrow> node_at s' q = node_at s q"
      using outside m(3) by simp
    show ?thesis
      unfolding copied_def using wf' E3 E4 E2a E2b by blast
  qed
qed

section \<open>A copy into the source itself never finishes\<close>

lemma for_each_Inr_Cons:
  "for_each body (x # xs) s = Some (Inr u, s') \<Longrightarrow>
   \<exists>u1 s1. body x s = Some (Inr u1, s1) \<and> for_each body xs s1 = Some (Inr u, s')"
  by (auto split: option.splits prod.splits sum.splits)

lemma copy_inside_loop:
  assumes IH: "\<And>s from to u s'. wf_store s \<Longrightarrow> strict_prefix (parts from) (parts to) \<Longrightarrow>
        copyEntry pf fuel s from to ow \<noteq> Some (Inr u, s')"
    and T: "parts to = parts from @ t # rest"
  shows "t \<in> set names \<Longrightarrow> list_all valid_name names \<Longrightarrow> wf_store s2 \<Longrightarrow>
     for_each (\<lambda>name s'. copyEntry pf fuel s' (from @ ''/'' @ name) (to @ ''/'' @ name) ow)
       names s2 \<noteq> Some (Inr u, s')"
proof (induction names arbitrary: s2)
  case Nil
  then show ?case by simp
next
  case (Cons n names)
  let ?body = "\<lambda>name s'. copyEntry pf fuel s' (from @ ''/'' @ name) (to @ ''/'' @ name) ow"
  have vn: "valid_name n" using Cons.prems(2) by simp
  have pF: "parts (from @ ''/'' @ n) = parts from @ [n]"
    and pT: "parts (to @ ''/'' @ n) = parts from @ t # rest @ [n]"
    using parts_child [OF vn] T by simp_all
  show ?case
  proof
    assume "for_each ?body (n # names) s2 = Some (Inr u, s')"
    from for_each_Inr_Cons [OF this] obtain u1 s3 where
      step: "copyEntry pf fuel s2 (from @ ''/'' @ n) (to @ ''/'' @ n) ow = Some (Inr u1, s3)"
      and more: "for_each ?body names s3 = Some (Inr u, s')"
      by blast
    show False
    proof (cases "n = t")
      case True
      have "strict_prefix (parts (from @ ''/'' @ n)) (parts (to @ ''/'' @ n))"
        unfolding pF pT using True by (simp add: strict_prefix_def)
      from IH [OF Cons.prems(3) this] step show False by simp
    next
      case False
      have a1: "\<not> prefix (parts (from @ ''/'' @ n)) (parts (to @ ''/'' @ n))"
        unfolding pF pT using False by simp
      have a2: "\<not> prefix (parts (to @ ''/'' @ n)) (parts (from @ ''/'' @ n))"
        unfolding pF pT by (auto simp: prefix_def)
      have "wf_store s3"
        using copyEntry_copied [OF step Cons.prems(3) a1 a2] by (simp add: copied_def)
      moreover have "t \<in> set names" using Cons.prems(1) False by simp
      moreover have "list_all valid_name names" using Cons.prems(2) by simp
      ultimately show False using Cons.IH more by blast
    qed
  qed
qed

lemma copy_inside_never:
  "wf_store s \<Longrightarrow> strict_prefix (parts from) (parts to) \<Longrightarrow>
   copyEntry pf fuel s from to ow \<noteq> Some (Inr u, s')"
proof (induction fuel arbitrary: s "from" to u s')
  case 0
  show ?case by simp
next
  case (Suc fuel)
  let ?F = "parts from" and ?T = "parts to"
  from Suc.prems(2) obtain t rest where T: "?T = ?F @ t # rest"
    by (metis strict_prefixE')
  show ?case
  proof
    assume run: "copyEntry pf (Suc fuel) s from to ow = Some (Inr u, s')"
    from run obtain root where root: "getDirectory pf = Inr root"
      by (auto split: sum.splits)
    then have root_nil: "root = []"
      by (auto simp: getDirectory_def split: if_splits option.splits)
    from run root root_nil obtain h k s1 where
      probe: "getHandleAtPath s [] from None None = (Inr (h, k), s1)"
      by (auto split: sum.splits prod.splits)
    have s1: "s1 = s" using getHandleAtPath_probe [OF probe] .
    note hk = getHandleAtPath_Inr [OF probe]
    show False
    proof (cases k)
      case KFile
      from hk(3) [OF KFile] obtain c where c: "map_of s ?F = Some (FileE c)" ..
      then have Fne: "?F \<noteq> []" using wf_store_lookup [OF Suc.prems(1)] by blast
      have cF: "node_at s ?F = Some (FileE c)" using c Fne by (simp add: node_at_def)
      have get: "fileGetFile s h = Inr c" using c hk(1) by (simp add: fileGetFile_def)
      from run root root_nil probe s1 KFile get obtain dest s2 where
        open_dest: "getFileHandle s [] to True = (Inr dest, s2)"
        by (auto split: sum.splits prod.splits)
      have "butlast ?T = ?F @ butlast (t # rest)"
        unfolding T by (simp add: butlast_append)
      then have "walk_dirs s [] (butlast ?T) True = (Inl TypeMismatchError, s)"
        using walk_dirs_file_in_way [OF Suc.prems(1) cF, of "butlast (t # rest)" True] by simp
      with open_dest show False
        by (simp add: getFileHandle_def Let_def split: if_splits)
    next
      case KDirectory
      from run root root_nil probe s1 KDirectory obtain u2 s2 ents where
        mk: "mkdir pf s to = (Inr u2, s2)"
        and ents: "dirEntries pf s2 h = Inr ents"
        and loop: "for_each (\<lambda>name s'. copyEntry pf fuel s' (from @ ''/'' @ name) (to @ ''/'' @ name) ow)
                     (map fst ents) s2 = Some (Inr u, s')"
        by (auto split: sum.splits prod.splits)
      note m = mkdir_effect [OF mk]
      have wf2: "wf_store s2" using m(4) [OF Suc.prems(1)] .
      have ents': "dirEntries pf s2 ?F = Inr ents" using ents hk(1) by simp
      note nm = dirEntries_names [OF ents' wf2]
      have "node_at s2 (?F @ [t]) \<noteq> None"
      proof (cases "rest = []")
        case True
        with m(1) T show ?thesis by simp
      next
        case False
        from wf_prefix_dirs [OF wf2 _ False, of "?F @ [t]" DirE] m(1) T show ?thesis by simp
      qed
      then have "t \<in> set (map fst ents)" using nm(2) by simp
      from copy_inside_loop [OF Suc.IH T this nm(3) wf2] loop show False by blast
    qed
  qed
qed

section \<open>Copying a directory\<close>


lemma absent_destination_apart:
  assumes "wf_store s" and "node_at s F = Some e" and "node_at s T = None"
    and "copyEntry pf fuel s from to ow = Some (Inr u, s')"
    and "F = parts from" and "T = parts to"
  shows "\<not> prefix F T" "\<not> prefix T F"
proof -
  show "\<not> prefix T F"
  proof
    assume p: "prefix T F"
    show False
    proof (cases "T = F")
      case True
      with assms(2,3) show False by simp
    next
      case False
      from wf_ancestors [OF assms(1,2) p False] assms(3) show False by simp
    qed
  qed
  show "\<not> prefix F T"
  proof
    assume p: "prefix F T"
    have "F \<noteq> T" using assms(2,3) by auto
    with p have "strict_prefix (parts from) (parts to)"
      using assms(5,6) by (simp add: strict_prefix_def)
    from copy_inside_never [OF assms(1) this] assms(4) show False by blast
  qed
qed

section \<open>Every successful copy keeps the store well formed\<close>

lemma getFileHandle_wf:
  "getFileHandle s [] p create = (r, s2) \<Longrightarrow> wf_store s \<Longrightarrow> wf_store s2"
  by (auto simp: getFileHandle_def Let_def split: if_splits prod.splits sum.splits
      dest: walk_dirs_wf dirGetFileHandle_wf)

lemma for_each_wf:
  assumes "\<And>x s s1 u. body x s = Some (Inr u, s1) \<Longrightarrow> wf_store s \<Longrightarrow> wf_store s1"
  shows "for_each body xs s = Some (Inr u, s') \<Longrightarrow> wf_store s \<Longrightarrow> wf_store s'"
proof (induction xs arbitrary: s)
  case Nil
  then show ?case by simp
next
  case (Cons x xs)
  from for_each_Inr_Cons [OF Cons.prems(1)] obtain u1 s1 where
    b: "body x s = Some (Inr u1, s1)" and r: "for_each body xs s1 = Some (Inr u, s')"
    by blast
  from assms [OF b Cons.prems(2)] have "wf_store s1" .
  from Cons.IH [OF r this] show ?case .
qed

lemma copyEntry_wf:
  "copyEntry pf fuel s from to ow = Some (Inr u, s') \<Longrightarrow> wf_store s \<Longrightarrow> wf_store s'"
proof (induction fuel arbitrary: s "from" to u s')
  case 0
  then show ?case by simp
next
  case (Suc fuel)
  note run = Suc.prems(1) and wf = Suc.prems(2)
  from run obtain root where root: "getDirectory pf = Inr root"
    by (auto split: sum.splits)
  then have root_nil: "root = []"
    by (auto simp: getDirectory_def split: if_splits option.splits)
  from run root root_nil obtain h k s1 where
    probe: "getHandleAtPath s [] from None None = (Inr (h, k), s1)"
    by (auto split: sum.splits prod.splits)
  have s1: "s1 = s" using getHandleAtPath_probe [OF probe] .
  show ?case
  proof (cases k)
    case KFile
    from run root root_nil probe s1 KFile obtain c dest s2 where
      open_dest: "getFileHandle s [] to True = (Inr dest, s2)"
      and wr: "fileWrite s2 dest c = (Inr u, s')"
      by (auto split: sum.splits prod.splits)
    from fileWrite_wf [OF wr getFileHandle_wf [OF open_dest wf]] show ?thesis .
  next
    case KDirectory
    from run root root_nil probe s1 KDirectory obtain u2 s2 ents where
      mk: "mkdir pf s to = (Inr u2, s2)"
      and ents: "dirEntries pf s2 h = Inr ents"
      and loop: "for_each (\<lambda>name s'. copyEntry pf fuel s' (from @ ''/'' @ name) (to @ ''/'' @ name) ow)
                   (map fst ents) s2 = Some (Inr u, s')"
      by (auto split: sum.splits prod.splits)
    have wf2: "wf_store s2" using mkdir_effect(4) [OF mk wf] .
    show ?thesis
      by (rule for_each_wf [OF _ loop wf2]) (rule Suc.IH)
  qed
qed

section \<open>What a copy of a directory leaves\<close>







lemma parts_a_z: "parts ''/a'' = [''a'']" "parts ''/z'' = [''z'']"
  by (simp_all add: parts_no_sep)





section \<open>Deleting an entry\<close>

lemma parts_getParentPath: "parts (getParentPath path) = butlast (parts path)"
proof (cases "length (parts path) \<le> 1")
  case True
  then have "butlast (parts path) = []"
    by (cases "parts path") auto
  with True show ?thesis by (simp add: getParentPath_def)
next
  case False
  have "\<forall>w \<in> set (butlast (parts path)). w \<noteq> [] \<and> CHR ''/'' \<notin> set w"
  proof
    fix w
    assume "w \<in> set (butlast (parts path))"
    then have "w \<in> set (parts path)" by (rule in_set_butlastD)
    then show "w \<noteq> [] \<and> CHR ''/'' \<notin> set w"
      using parts_nonempty parts_no_slash by blast
  qed
  from parts_join [OF this] False show ?thesis
    by (simp add: getParentPath_def)
qed

lemma map_of_filter_key:
  "map_of (filter (\<lambda>(p, e). P p) s) q = (if P q then map_of s q else None)"
  by (induction s) auto

lemma dirRemoveEntry_Inr:
  assumes "dirRemoveEntry s dir n True = (Inr u, s')"
  shows "valid_name n" "map_of s (dir @ [n]) \<noteq> None"
    "s' = filter (\<lambda>(p, e). \<not> prefix (dir @ [n]) p) s"
    "node_at s' q = (if prefix (dir @ [n]) q then None else node_at s q)"
proof -
  from assms show v: "valid_name n" and m: "map_of s (dir @ [n]) \<noteq> None"
    and f: "s' = filter (\<lambda>(p, e). \<not> prefix (dir @ [n]) p) s"
    by (auto simp: dirRemoveEntry_def split: if_splits option.splits)
  show "node_at s' q = (if prefix (dir @ [n]) q then None else node_at s q)"
    unfolding f by (auto simp: node_at_def map_of_filter_key)
qed

lemma removed_subtree_wf:
  assumes "wf_store s" and "F \<noteq> []"
  shows "wf_store (filter (\<lambda>(p, e). \<not> prefix F p) s)"
proof -
  let ?s' = "filter (\<lambda>(p, e). \<not> prefix F p) s"
  have n': "\<And>q. node_at ?s' q = (if prefix F q then None else node_at s q)"
    using assms(2) by (auto simp: node_at_def map_of_filter_key)
  have "\<And>p e. (p, e) \<in> set ?s' \<Longrightarrow>
          p \<noteq> [] \<and> list_all valid_name p \<and> node_at ?s' (butlast p) = Some DirE"
  proof -
    fix p e
    assume a: "(p, e) \<in> set ?s'"
    then have in_s: "(p, e) \<in> set s" and np: "\<not> prefix F p" by auto
    from in_s assms(1) have old: "p \<noteq> []" "list_all valid_name p"
      "node_at s (butlast p) = Some DirE"
      by (auto simp: wf_store_def list_all_iff)
    have "\<not> prefix F (butlast p)"
      using np by (meson prefix_order.trans prefixeq_butlast)
    with old n' show "p \<noteq> [] \<and> list_all valid_name p \<and> node_at ?s' (butlast p) = Some DirE"
      by simp
  qed
  moreover have "distinct (map fst ?s')"
    using assms(1) by (simp add: wf_store_def distinct_map_filter)
  ultimately show ?thesis
    by (auto simp: wf_store_def list_all_iff)
qed

lemma deleteEntry_Inr:
  assumes "deleteEntry pf s path True = (Inr u, s')" and "wf_store s"
  shows "parts path \<noteq> []" "map_of s (parts path) \<noteq> None"
    "\<And>q. node_at s' q = (if prefix (parts path) q then None else node_at s q)"
    "wf_store s'" "valid_name (last (parts path))"
proof -
  let ?F = "parts path"
  from assms(1) obtain root where root: "getDirectory pf = Inr root"
    by (auto simp: deleteEntry_def split: sum.splits)
  then have root_nil: "root = []"
    by (auto simp: getDirectory_def split: if_splits option.splits)
  from assms(1) root root_nil obtain parent s1 where
    w: "walk_dirs s [] (butlast ?F) False = (Inr parent, s1)"
    and rm: "dirRemoveEntry s1 parent (getBasename path) True = (Inr u, s')"
    by (auto simp: deleteEntry_def Let_def getDirectoryHandle_parts parts_getParentPath
        split: sum.splits prod.splits)
  have s1: "s1 = s" using walk_dirs_no_create [OF w] .
  have parent: "parent = butlast ?F" using walk_dirs_Inr [OF w] by simp
  note r = dirRemoveEntry_Inr [OF rm]
  show ne: "?F \<noteq> []"
  proof
    assume "?F = []"
    then have "getBasename path = []" by (simp add: getBasename_parts)
    with r(1) show False by (simp add: valid_name_def)
  qed
  then have base: "getBasename path = last ?F" by (simp add: getBasename_parts)
  have whole: "parent @ [getBasename path] = ?F"
    using parent base ne by simp
  show "valid_name (last ?F)" using r(1) base by simp
  show "map_of s ?F \<noteq> None" using r(2) whole s1 by simp
  show "\<And>q. node_at s' q = (if prefix ?F q then None else node_at s q)"
    using r(4) whole s1 by simp
  show "wf_store s'"
    using r(3) whole s1 removed_subtree_wf [OF assms(2) ne] by simp
qed

section \<open>What \<open>stat\<close> reports\<close>

lemma stat_existing:
  assumes "getDirectory pf = Inr []" and "wf_store s" and "node_at s (parts p) = Some e"
  shows "stat pf s p = (Inr (stat_of e), s)"
proof (cases e)
  case (FileE c)
  with assms(3) have f: "node_at s (parts p) = Some (FileE c)" by simp
  have "fileGetFile s (parts p) = Inr c"
    using resolve_file(4) [OF assms(2) f] by (simp add: fileGetFile_def)
  with getHandleAtPath_file [OF assms(2) f] assms(1) FileE show ?thesis
    by (simp add: stat_def)
next
  case DirE
  with assms(3) have d: "node_at s (parts p) = Some DirE" by simp
  with getHandleAtPath_dir [OF assms(2) d] assms(1) DirE show ?thesis
    by (simp add: stat_def)
qed

lemma stat_missing:
  assumes "getDirectory pf = Inr []" and "wf_store s" and "parts p \<noteq> []"
    and "node_at s (butlast (parts p)) = Some DirE" and "valid_name (last (parts p))"
    and "node_at s (parts p) = None"
  shows "stat pf s p = (Inl NotFoundError, s)"
proof -
  have sp: "butlast (parts p) @ [last (parts p)] = parts p" using assms(3) by simp
  have w: "walk_dirs s [] (butlast (parts p)) False = (Inr (butlast (parts p)), s)"
    using walk_dirs_existing [OF assms(2), of "[]" "butlast (parts p)" False] assms(4) by simp
  have m: "map_of s (butlast (parts p) @ [last (parts p)]) = None"
    using assms(6,3) sp by (simp add: node_at_def)
  have d: "dirGetDirectoryHandle s (butlast (parts p)) (last (parts p)) False
             = (Inl NotFoundError, s)"
    using assms(4,5) m by (simp add: dirGetDirectoryHandle_def del: append_butlast_last_id)
  have f: "dirGetFileHandle s (butlast (parts p)) (last (parts p)) False
             = (Inl NotFoundError, s)"
    using assms(4,5) m by (simp add: dirGetFileHandle_def del: append_butlast_last_id)
  have "getHandleAtPath s [] p None None = (Inl NotFoundError, s)"
    using assms(3) w d f by (simp add: getHandleAtPath_def Let_def)
  with assms(1) show ?thesis by (simp add: stat_def)
qed

section \<open>Moving an entry\<close>

lemma copied_fresh:
  assumes "copied s s' F T" and "wf_store s" and "node_at s T = None"
  shows "node_at s' (T @ rel) = node_at s (F @ rel)"
proof (cases "node_at s (F @ rel)")
  case None
  with assms(1) have "node_at s' (T @ rel) = node_at s (T @ rel)"
    unfolding copied_def by blast
  also have "\<dots> = None" using wf_below_nothing [OF assms(2,3)] .
  finally show ?thesis using None by simp
next
  case (Some e)
  with assms(1) show ?thesis unfolding copied_def by simp
qed

lemma copyEntry_source:
  assumes "copyEntry pf fuel s from to ow = Some (Inr u, s')" and "wf_store s"
  shows "getDirectory pf = Inr []" "\<exists>e. node_at s (parts from) = Some e"
proof -
  from assms(1) obtain n where fuel: "fuel = Suc n" by (cases fuel) auto
  note run = assms(1) [unfolded fuel]
  from run obtain root where root: "getDirectory pf = Inr root"
    by (auto split: sum.splits)
  then show root_nil: "getDirectory pf = Inr []"
    by (auto simp: getDirectory_def split: if_splits option.splits)
  from run root_nil obtain h k s1 where
    probe: "getHandleAtPath s [] from None None = (Inr (h, k), s1)"
    by (auto split: sum.splits prod.splits)
  note hk = getHandleAtPath_Inr [OF probe]
  show "\<exists>e. node_at s (parts from) = Some e"
  proof (cases k)
    case KFile
    from hk(3) [OF KFile] obtain c where c: "map_of s (parts from) = Some (FileE c)" ..
    then have "parts from \<noteq> []" using wf_store_lookup [OF assms(2)] by blast
    with c show ?thesis by (simp add: node_at_def)
  next
    case KDirectory
    from hk(2) [OF KDirectory] show ?thesis by blast
  qed
qed

lemma copyEntry_file_source:
  assumes "copyEntry pf fuel s from to ow = Some (Inr u, s')" and "wf_store s"
    and "node_at s (parts from) = Some (FileE c)"
  shows "\<exists>s2. getFileHandle s [] to True = (Inr (parts to), s2)"
proof -
  from assms(1) obtain n where fuel: "fuel = Suc n" by (cases fuel) auto
  note run = assms(1) [unfolded fuel]
  have root: "getDirectory pf = Inr []" using copyEntry_source(1) [OF assms(1,2)] .
  have g: "fileGetFile s (parts from) = Inr c"
    using resolve_file(4) [OF assms(2,3)] by (simp add: fileGetFile_def)
  from run root getHandleAtPath_file [OF assms(2,3)] g obtain dest s2 where
    o: "getFileHandle s [] to True = (Inr dest, s2)"
    by (auto split: sum.splits prod.splits)
  with getFileHandle_Inr(1) [OF o] show ?thesis by simp
qed

lemma moveEntry_Inr:
  "moveEntry pf fuel s from to ow = Some (Inr u, s'') \<longleftrightarrow>
     (\<exists>u1 s1. copyEntry pf fuel s from to ow = Some (Inr u1, s1)
        \<and> deleteEntry pf s1 from True = (Inr u, s''))"
  by (auto simp: moveEntry_def split: option.splits prod.splits sum.splits)

lemma handler_move:
  "handler pf fuel s ''fs.move'' ps =
     (case handler pf fuel s ''fs.copy'' ps of
        None \<Rightarrow> None
      | Some (Ok d, s1) \<Rightarrow>
          handler pf fuel s1 ''fs.delete'' (ps\<lparr>arg_path := arg_from ps, arg_recursive := Some True\<rparr>)
      | Some (Error c m d, s1) \<Rightarrow> Some (Error c m d, s1)
      | Some (Uncaught x, s1) \<Rightarrow> Some (Uncaught x, s1))"
proof (cases "copyEntry pf fuel s (arg_from ps) (arg_to ps) (or_false (arg_overwrite ps))")
  case None
  then show ?thesis by (simp add: handler_def moveEntry_def del: copyEntry.simps)
next
  case (Some r)
  obtain out s1 where r: "r = (out, s1)" by (cases r)
  show ?thesis
  proof (cases out)
    case (Inl e)
    with Some r show ?thesis
      by (cases e) (simp_all add: handler_def moveEntry_def respond_def del: copyEntry.simps)
  next
    case (Inr u)
    with Some r show ?thesis
      by (simp add: handler_def moveEntry_def respond_def or_false_def del: copyEntry.simps)
  qed
qed

lemma move_outcome:
  assumes wf: "wf_store s" and ne: "parts from \<noteq> parts to"
    and mv: "moveEntry pf fuel s from to ow = Some (Inr u, s'')"
  shows "stat pf s'' from = (Inl NotFoundError, s'')"
    and "\<exists>e. node_at s (parts from) = Some e \<and> stat pf s from = (Inr (stat_of e), s)
             \<and> stat pf s'' to = (Inr (stat_of e), s'')"
    and "\<forall>c. node_at s (parts from) = Some (FileE c) \<longrightarrow> node_at s'' (parts to) = Some (FileE c)"
    and "node_at s (parts to) = None \<longrightarrow>
           (\<forall>rel. node_at s'' (parts to @ rel) = node_at s (parts from @ rel))"
proof -
  let ?F = "parts from" and ?T = "parts to"
  from mv obtain u1 s1 where
    cp: "copyEntry pf fuel s from to ow = Some (Inr u1, s1)"
    and del: "deleteEntry pf s1 from True = (Inr u, s'')"
    unfolding moveEntry_Inr by blast
  have root: "getDirectory pf = Inr []" using copyEntry_source(1) [OF cp wf] .
  from copyEntry_source(2) [OF cp wf] obtain e where e: "node_at s ?F = Some e" ..
  have wf1: "wf_store s1" using copyEntry_wf [OF cp wf] .
  note d = deleteEntry_Inr [OF del wf1]
  from d(2) obtain e1 where e1: "map_of s1 ?F = Some e1" by auto
  have F1: "node_at s1 ?F = Some e1" using e1 d(1) by (simp add: node_at_def)
  have par1: "node_at s1 (butlast ?F) = Some DirE"
    using wf_store_lookup [OF wf1 e1] by simp
  have "\<not> prefix ?F (butlast ?F)"
    using d(1) by (metis append_butlast_last_id same_prefix_nil not_Cons_self2)
  then have par: "node_at s'' (butlast ?F) = Some DirE"
    using d(3) [of "butlast ?F"] par1 by simp
  have gone: "node_at s'' ?F = None" using d(3) [of ?F] by simp
  show after_from: "stat pf s'' from = (Inl NotFoundError, s'')"
    using stat_missing [OF root d(4) d(1) par d(5) gone] .
  have before: "stat pf s from = (Inr (stat_of e), s)"
    using stat_existing [OF root wf e] .
  have not_inside: "\<not> prefix ?F ?T"
  proof
    assume "prefix ?F ?T"
    with ne have "strict_prefix ?F ?T" by (simp add: strict_prefix_def)
    from copy_inside_never [OF wf this] cp show False by blast
  qed
  show "\<exists>e. node_at s ?F = Some e \<and> stat pf s from = (Inr (stat_of e), s)
             \<and> stat pf s'' to = (Inr (stat_of e), s'')"
    and "\<forall>c. node_at s ?F = Some (FileE c) \<longrightarrow> node_at s'' ?T = Some (FileE c)"
    and "node_at s ?T = None \<longrightarrow> (\<forall>rel. node_at s'' (?T @ rel) = node_at s (?F @ rel))"
  proof -
    have all: "(\<exists>e. node_at s ?F = Some e \<and> stat pf s from = (Inr (stat_of e), s)
             \<and> stat pf s'' to = (Inr (stat_of e), s''))
      \<and> (\<forall>c. node_at s ?F = Some (FileE c) \<longrightarrow> node_at s'' ?T = Some (FileE c))
      \<and> (node_at s ?T = None \<longrightarrow> (\<forall>rel. node_at s'' (?T @ rel) = node_at s (?F @ rel)))"
    proof (cases "prefix ?T ?F")
      case True
      have neq: "?T \<noteq> ?F" using ne by simp
      have dT: "node_at s ?T = Some DirE"
        using wf_ancestors [OF wf e True neq] .
      have eD: "e = DirE"
      proof (cases e)
        case DirE
        then show ?thesis .
      next
        case (FileE c)
        with e have "node_at s ?F = Some (FileE c)" by simp
        from copyEntry_file_source [OF cp wf this] obtain s2 where
          o: "getFileHandle s [] to True = (Inr ?T, s2)" ..
        note g = getFileHandle_Inr [OF o]
        from g(4) [OF dT] g(2) have "map_of s2 ?T = Some DirE" by (simp add: node_at_def)
        with g(3) show ?thesis by simp
      qed
      have dT1: "node_at s1 ?T = Some DirE"
        using wf_ancestors [OF wf1 F1 True neq] .
      have dT2: "node_at s'' ?T = Some DirE"
        using d(3) [of ?T] not_inside dT1 by simp
      have "stat pf s'' to = (Inr (stat_of DirE), s'')"
        using stat_existing [OF root d(4) dT2] .
      with e eD before dT show ?thesis by simp
    next
      case False
      have c: "copied s s1 ?F ?T"
        using copyEntry_copied [OF cp wf not_inside False] .
      have keepT: "\<And>rel. node_at s'' (?T @ rel) = node_at s1 (?T @ rel)"
      proof -
        fix rel
        have "\<not> prefix ?F (?T @ rel)"
          using apart_extend [OF not_inside False, of "[]" rel] by simp
        then show "node_at s'' (?T @ rel) = node_at s1 (?T @ rel)"
          using d(3) [of "?T @ rel"] by simp
      qed
      have "node_at s1 (?T @ []) = Some e"
        using c e unfolding copied_def by (metis append_Nil2)
      then have eT: "node_at s'' ?T = Some e"
        using keepT [of "[]"] by simp
      have st: "stat pf s'' to = (Inr (stat_of e), s'')"
        using stat_existing [OF root d(4) eT] .
      have sub: "node_at s ?T = None \<longrightarrow> (\<forall>rel. node_at s'' (?T @ rel) = node_at s (?F @ rel))"
        using copied_fresh [OF c wf] keepT by simp
      from e before st eT sub show ?thesis by auto
    qed
    from all show "\<exists>e. node_at s ?F = Some e \<and> stat pf s from = (Inr (stat_of e), s)
             \<and> stat pf s'' to = (Inr (stat_of e), s'')"
      and "\<forall>c. node_at s ?F = Some (FileE c) \<longrightarrow> node_at s'' ?T = Some (FileE c)"
      and "node_at s ?T = None \<longrightarrow> (\<forall>rel. node_at s'' (?T @ rel) = node_at s (?F @ rel))"
      by blast+
  qed
qed


text \<open>
  C1. The handler's \<^verbatim>\<open>fs.move\<close> is \<^verbatim>\<open>fs.copy\<close> followed, when the copy succeeded, by
  \<^verbatim>\<open>fs.delete\<close> of \<open>from\<close> with \<open>recursive = true\<close> on the store the copy left; a failed copy
  is the answer of the move (and an exception that leaves the copy leaves the move). A move succeeds exactly when the copy and then the delete
  succeed. After a successful move between two different locations in a well-formed
  store, \<^verbatim>\<open>stat(from)\<close> throws \<open>NotFoundError\<close> (code \<open>NOT_FOUND\<close>) and \<^verbatim>\<open>stat(to)\<close>
  reports the kind and size \<^verbatim>\<open>stat(from)\<close> reported before; a file arrives with its
  bytes, and when nothing existed at \<open>to\<close> before, everything below \<open>to\<close> is what was below
  \<open>from\<close>.
\<close>

theorem move_is_copy_then_delete:
  "handler pf fuel s ''fs.move'' ps =
     (case handler pf fuel s ''fs.copy'' ps of
        None \<Rightarrow> None
      | Some (Ok d, s1) \<Rightarrow>
          handler pf fuel s1 ''fs.delete'' (ps\<lparr>arg_path := arg_from ps, arg_recursive := Some True\<rparr>)
      | Some (Error c m d, s1) \<Rightarrow> Some (Error c m d, s1)
      | Some (Uncaught x, s1) \<Rightarrow> Some (Uncaught x, s1))
   \<and> (moveEntry pf fuel s from to ow = Some (Inr u, s'') \<longleftrightarrow>
        (\<exists>u1 s1. copyEntry pf fuel s from to ow = Some (Inr u1, s1)
           \<and> deleteEntry pf s1 from True = (Inr u, s'')))
   \<and> (wf_store s \<and> parts from \<noteq> parts to
        \<and> moveEntry pf fuel s from to ow = Some (Inr u, s'') \<longrightarrow>
        stat pf s'' from = (Inl NotFoundError, s'')
        \<and> error_code NotFoundError = ''NOT_FOUND''
        \<and> (\<exists>e. node_at s (parts from) = Some e \<and> stat pf s from = (Inr (stat_of e), s)
               \<and> stat pf s'' to = (Inr (stat_of e), s''))
        \<and> (\<forall>c. node_at s (parts from) = Some (FileE c) \<longrightarrow>
               node_at s'' (parts to) = Some (FileE c))
        \<and> (node_at s (parts to) = None \<longrightarrow>
               (\<forall>rel. node_at s'' (parts to @ rel) = node_at s (parts from @ rel))))"
proof (intro conjI impI)
  show "handler pf fuel s ''fs.move'' ps =
     (case handler pf fuel s ''fs.copy'' ps of
        None \<Rightarrow> None
      | Some (Ok d, s1) \<Rightarrow>
          handler pf fuel s1 ''fs.delete'' (ps\<lparr>arg_path := arg_from ps, arg_recursive := Some True\<rparr>)
      | Some (Error c m d, s1) \<Rightarrow> Some (Error c m d, s1)
      | Some (Uncaught x, s1) \<Rightarrow> Some (Uncaught x, s1))"
    by (rule handler_move)
  show "moveEntry pf fuel s from to ow = Some (Inr u, s'') \<longleftrightarrow>
        (\<exists>u1 s1. copyEntry pf fuel s from to ow = Some (Inr u1, s1)
           \<and> deleteEntry pf s1 from True = (Inr u, s''))"
    by (rule moveEntry_Inr)
  assume a: "wf_store s \<and> parts from \<noteq> parts to
        \<and> moveEntry pf fuel s from to ow = Some (Inr u, s'')"
  then have wf: "wf_store s" and ne: "parts from \<noteq> parts to"
    and mv: "moveEntry pf fuel s from to ow = Some (Inr u, s'')"
    by simp_all
  note out = move_outcome [OF wf ne mv]
  show "stat pf s'' from = (Inl NotFoundError, s'')" by (rule out(1))
  show "error_code NotFoundError = ''NOT_FOUND''"
    by (simp add: NotFoundError_def mk_exn_def)
  show "\<exists>e. node_at s (parts from) = Some e \<and> stat pf s from = (Inr (stat_of e), s)
               \<and> stat pf s'' to = (Inr (stat_of e), s'')"
    by (rule out(2))
  show "\<forall>c. node_at s (parts from) = Some (FileE c) \<longrightarrow>
               node_at s'' (parts to) = Some (FileE c)"
    by (rule out(3))
  assume "node_at s (parts to) = None"
  with out(4) show "\<forall>rel. node_at s'' (parts to @ rel) = node_at s (parts from @ rel)"
    by simp
qed

lemma move_tree_store:
  "moveEntry opfs_page 3 tree_store ''/a'' ''/z'' False
     = Some (Inr (), [([''z''], DirE), ([''z'', ''b''], DirE),
           ([''z'', ''b'', ''c.txt''], FileE [0x68, 0x69]), ([''z'', ''e''], DirE)])"
  by code_simp

theorem move_is_copy_then_delete_witness:
  "wf_store tree_store \<and> parts ''/a'' \<noteq> parts ''/z''
   \<and> moveEntry opfs_page 3 tree_store ''/a'' ''/z'' False
       = Some (Inr (), [([''z''], DirE), ([''z'', ''b''], DirE),
           ([''z'', ''b'', ''c.txt''], FileE [0x68, 0x69]), ([''z'', ''e''], DirE)])
   \<and> stat opfs_page [([''z''], DirE), ([''z'', ''b''], DirE),
           ([''z'', ''b'', ''c.txt''], FileE [0x68, 0x69]), ([''z'', ''e''], DirE)] ''/a''
       = (Inl NotFoundError, [([''z''], DirE), ([''z'', ''b''], DirE),
           ([''z'', ''b'', ''c.txt''], FileE [0x68, 0x69]), ([''z'', ''e''], DirE)])"
proof -
  have ne: "parts ''/a'' \<noteq> parts ''/z''"
    unfolding parts_a_z by simp
  let ?s'' = "[([''z''], DirE), ([''z'', ''b''], DirE),
           ([''z'', ''b'', ''c.txt''], FileE [0x68, 0x69]), ([''z'', ''e''], DirE)]"
  have "wf_store tree_store \<and> parts ''/a'' \<noteq> parts ''/z''
        \<and> moveEntry opfs_page 3 tree_store ''/a'' ''/z'' False = Some (Inr (), ?s'')"
    using wf_tree_store ne move_tree_store by simp
  with move_is_copy_then_delete [of opfs_page 3 tree_store no_params "''/a''" "''/z''" False "()" ?s'']
  have "stat opfs_page ?s'' ''/a'' = (Inl NotFoundError, ?s'')"
    by blast
  with wf_tree_store ne move_tree_store show ?thesis by simp
qed

text \<open>
  C1, as stated for every pair of paths, fails when both name the same entry: moving
  \<open>/f\<close> onto itself succeeds and leaves no \<open>/f\<close>, so \<^verbatim>\<open>stat(to)\<close> throws. And a directory
  moved onto an existing one is merged into it: after moving the empty \<open>/a/e\<close> onto
  \<open>/a/b\<close> the destination still holds \<open>c.txt\<close>, which the source never had.
\<close>

theorem move_onto_itself_counterexample:
  "moveEntry opfs_page 1 one_file ''/f'' ''/f'' False = Some (Inr (), [])
   \<and> stat opfs_page [] ''/f'' = (Inl NotFoundError, [])
   \<and> moveEntry opfs_page 1 tree_store ''/a/e'' ''/a/b'' False
       = Some (Inr (), [([''a''], DirE), ([''a'', ''b''], DirE),
                        ([''a'', ''b'', ''c.txt''], FileE [0x68, 0x69])])
   \<and> node_at tree_store [''a'', ''e'', ''c.txt''] = None"
  by code_simp

section \<open>Decoding what the encoder wrote\<close>

lemma add_mod_small: "(x::nat) < m \<Longrightarrow> (k * m + x) mod m = x"
  by simp

lemma lead2_mod: "(c::nat) < 2048 \<Longrightarrow> (192 + c div 64) mod 32 = c div 64"
  using add_mod_small [of "c div 64" 32 6] by simp

lemma lead3_mod: "(c::nat) < 65536 \<Longrightarrow> (224 + c div 4096) mod 16 = c div 4096"
  using add_mod_small [of "c div 4096" 16 14] by simp

lemma lead4_mod: "(c::nat) < 1114112 \<Longrightarrow> (240 + c div 262144) mod 8 = c div 262144"
  using add_mod_small [of "c div 262144" 8 30] by simp

lemma cont_mod: "(128 + (x::nat) mod 64) mod 64 = x mod 64"
  using add_mod_small [of "x mod 64" 64 2] by simp

lemma value3: "((c::nat) div 4096 * 64 + (c div 64) mod 64) * 64 + c mod 64 = c"
proof -
  have "c div 4096 = c div 64 div 64" by (simp add: div_mult2_eq)
  then show ?thesis by simp
qed

lemma value4:
  "(((c::nat) div 262144 * 64 + (c div 4096) mod 64) * 64 + (c div 64) mod 64) * 64 + c mod 64 = c"
proof -
  have a: "c div 262144 = c div 4096 div 64" by (simp add: div_mult2_eq)
  have b: "c div 4096 = c div 64 div 64" by (simp add: div_mult2_eq)
  have "c div 262144 * 64 + (c div 4096) mod 64 = c div 4096" unfolding a by simp
  then show ?thesis unfolding b by simp
qed

lemma second3_low: "2048 \<le> (c::nat) \<Longrightarrow> c div 4096 = 0 \<Longrightarrow> 160 \<le> 128 + (c div 64) mod 64"
proof -
  assume a: "2048 \<le> c" "c div 4096 = 0"
  then have "c < 4096" by (simp add: div_eq_0_iff)
  then have "c div 64 < 64" by simp
  moreover have "32 \<le> c div 64" using a(1) by simp
  ultimately show ?thesis by simp
qed

lemma second3_high: "(c::nat) < 55296 \<Longrightarrow> c div 4096 = 13 \<Longrightarrow> 128 + (c div 64) mod 64 \<le> 159"
proof -
  assume a: "c < 55296" "c div 4096 = 13"
  have b: "c div 4096 = c div 64 div 64" by (simp add: div_mult2_eq)
  from div_mult_mod_eq [of "c div 64" 64]
  have "13 * 64 + (c div 64) mod 64 = c div 64" unfolding b [symmetric] a(2) .
  moreover have "c div 64 < 864" using a(1) by simp
  ultimately show ?thesis by linarith
qed

lemma second4_low: "65536 \<le> (c::nat) \<Longrightarrow> c div 262144 = 0 \<Longrightarrow> 144 \<le> 128 + (c div 4096) mod 64"
proof -
  assume a: "65536 \<le> c" "c div 262144 = 0"
  then have "c < 262144" by (simp add: div_eq_0_iff)
  then have "c div 4096 < 64" by simp
  moreover have "16 \<le> c div 4096" using a(1) by simp
  ultimately show ?thesis by simp
qed

lemma second4_high: "(c::nat) < 1114112 \<Longrightarrow> c div 262144 = 4 \<Longrightarrow> 128 + (c div 4096) mod 64 \<le> 143"
proof -
  assume a: "c < 1114112" "c div 262144 = 4"
  have b: "c div 262144 = c div 4096 div 64" by (simp add: div_mult2_eq)
  from div_mult_mod_eq [of "c div 4096" 64]
  have "4 * 64 + (c div 4096) mod 64 = c div 4096" unfolding b [symmetric] a(2) .
  moreover have "c div 4096 < 272" using a(1) by simp
  ultimately show ?thesis by linarith
qed

text \<open>One step of the decoder inside a sequence, on a byte within the bounds.\<close>

lemma run_continue:
  assumes "rem \<noteq> 0" and "lo \<le> b" and "b \<le> hi"
  shows "utf8_decode_run cp rem lo hi (b # bs) =
     (if rem = 1 then (cp * 0x40 + b mod 0x40) # utf8_decode_run 0 0 0x80 0xBF bs
      else utf8_decode_run (cp * 0x40 + b mod 0x40) (rem - 1) 0x80 0xBF bs)"
  using assms by (subst utf8_decode_run.simps) (simp del: utf8_decode_run.simps)

lemma run_lead2:
  assumes "0xC2 \<le> b" and "b \<le> 0xDF"
  shows "utf8_decode_run 0 0 0x80 0xBF (b # bs) = utf8_decode_run (b mod 0x20) 1 0x80 0xBF bs"
  using assms by (subst utf8_decode_run.simps) (simp del: utf8_decode_run.simps)

lemma run_lead3:
  assumes "0xE0 \<le> b" and "b \<le> 0xEF"
  shows "utf8_decode_run 0 0 0x80 0xBF (b # bs) =
     utf8_decode_run (b mod 0x10) 2
       (if b = 0xE0 then 0xA0 else 0x80) (if b = 0xED then 0x9F else 0xBF) bs"
  using assms by (subst utf8_decode_run.simps) (simp del: utf8_decode_run.simps)

lemma run_lead4:
  assumes "0xF0 \<le> b" and "b \<le> 0xF4"
  shows "utf8_decode_run 0 0 0x80 0xBF (b # bs) =
     utf8_decode_run (b mod 0x8) 3
       (if b = 0xF0 then 0x90 else 0x80) (if b = 0xF4 then 0x8F else 0xBF) bs"
  using assms by (subst utf8_decode_run.simps) (simp del: utf8_decode_run.simps)

lemma decode_one_byte:
  assumes "c < 0x80"
  shows "utf8_decode_run 0 0 0x80 0xBF (utf8_encode_scalar c @ rest)
           = c # utf8_decode_run 0 0 0x80 0xBF rest"
  using assms by simp

lemma decode_two_bytes:
  assumes "0x80 \<le> c" and "c < 0x800"
  shows "utf8_decode_run 0 0 0x80 0xBF (utf8_encode_scalar c @ rest)
           = c # utf8_decode_run 0 0 0x80 0xBF rest"
proof -
  let ?b1 = "0xC0 + c div 0x40" and ?b2 = "0x80 + c mod 0x40"
  have enc: "utf8_encode_scalar c @ rest = ?b1 # ?b2 # rest" using assms by simp
  have b1: "0xC2 \<le> ?b1" "?b1 \<le> 0xDF" using assms by simp_all
  have b1m: "?b1 mod 0x20 = c div 0x40" using lead2_mod assms(2) by simp
  have b2: "0x80 \<le> ?b2" "?b2 \<le> 0xBF" by simp_all
  have b2m: "?b2 mod 0x40 = c mod 0x40" using cont_mod [of c] by simp
  show ?thesis
    unfolding enc run_lead2 [OF b1] b1m
    by (subst run_continue [OF _ b2]) (simp_all add: b2m del: utf8_decode_run.simps)
qed

lemma decode_three_bytes:
  assumes "0x800 \<le> c" and "c < 0x10000" and "\<not> (0xD800 \<le> c \<and> c \<le> 0xDFFF)"
  shows "utf8_decode_run 0 0 0x80 0xBF (utf8_encode_scalar c @ rest)
           = c # utf8_decode_run 0 0 0x80 0xBF rest"
proof -
  let ?b1 = "0xE0 + c div 0x1000" and ?b2 = "0x80 + (c div 0x40) mod 0x40"
    and ?b3 = "0x80 + c mod 0x40"
  let ?lo = "if ?b1 = 0xE0 then 0xA0 else 0x80" and ?hi = "if ?b1 = 0xED then 0x9F else 0xBF"
  have enc: "utf8_encode_scalar c @ rest = ?b1 # ?b2 # ?b3 # rest" using assms by simp
  have b1: "0xE0 \<le> ?b1" "?b1 \<le> 0xEF" using assms by simp_all
  have b1m: "?b1 mod 0x10 = c div 0x1000" using lead3_mod assms(2) by simp
  have lo: "?lo \<le> ?b2"
  proof (cases "c div 0x1000 = 0")
    case True
    with second3_low [of c] assms(1) show ?thesis by simp
  next
    case False
    then show ?thesis by simp
  qed
  have hi: "?b2 \<le> ?hi"
  proof (cases "c div 0x1000 = 13")
    case True
    then have "c div 0x1000 < 14" by simp
    then have "c < 0xE000" by (simp add: div_less_iff_less_mult)
    with assms(3) have "c < 55296" by simp
    with second3_high [of c] True show ?thesis by simp
  next
    case False
    then show ?thesis by simp
  qed
  have b2m: "?b2 mod 0x40 = (c div 0x40) mod 0x40" using cont_mod [of "c div 0x40"] by simp
  have b3: "0x80 \<le> ?b3" "?b3 \<le> 0xBF" by simp_all
  have b3m: "?b3 mod 0x40 = c mod 0x40" using cont_mod [of c] by simp
  have step2: "utf8_decode_run (c div 0x1000) 2 ?lo ?hi (?b2 # ?b3 # rest)
      = utf8_decode_run (c div 0x1000 * 0x40 + (c div 0x40) mod 0x40) 1 0x80 0xBF (?b3 # rest)"
    by (subst run_continue [OF _ lo hi]) (simp_all add: b2m del: utf8_decode_run.simps)
  have step3: "utf8_decode_run (c div 0x1000 * 0x40 + (c div 0x40) mod 0x40) 1 0x80 0xBF (?b3 # rest)
      = ((c div 0x1000 * 0x40 + (c div 0x40) mod 0x40) * 0x40 + ?b3 mod 0x40)
          # utf8_decode_run 0 0 0x80 0xBF rest"
    by (subst run_continue [OF _ b3]) (simp_all del: utf8_decode_run.simps)
  show ?thesis
    unfolding enc run_lead3 [OF b1] b1m step2 step3 b3m value3 ..
qed

lemma decode_four_bytes:
  assumes "0x10000 \<le> c" and "c < 0x110000"
  shows "utf8_decode_run 0 0 0x80 0xBF (utf8_encode_scalar c @ rest)
           = c # utf8_decode_run 0 0 0x80 0xBF rest"
proof -
  let ?b1 = "0xF0 + c div 0x40000" and ?b2 = "0x80 + (c div 0x1000) mod 0x40"
    and ?b3 = "0x80 + (c div 0x40) mod 0x40" and ?b4 = "0x80 + c mod 0x40"
  let ?lo = "if ?b1 = 0xF0 then 0x90 else 0x80" and ?hi = "if ?b1 = 0xF4 then 0x8F else 0xBF"
  have enc: "utf8_encode_scalar c @ rest = ?b1 # ?b2 # ?b3 # ?b4 # rest" using assms by simp
  have b1: "0xF0 \<le> ?b1" "?b1 \<le> 0xF4" using assms by simp_all
  have b1m: "?b1 mod 0x8 = c div 0x40000" using lead4_mod assms(2) by simp
  have lo: "?lo \<le> ?b2"
  proof (cases "c div 0x40000 = 0")
    case True
    with second4_low [of c] assms(1) show ?thesis by simp
  next
    case False
    then show ?thesis by simp
  qed
  have hi: "?b2 \<le> ?hi"
  proof (cases "c div 0x40000 = 4")
    case True
    with second4_high [of c] assms(2) show ?thesis by simp
  next
    case False
    then show ?thesis by simp
  qed
  have b2m: "?b2 mod 0x40 = (c div 0x1000) mod 0x40" using cont_mod [of "c div 0x1000"] by simp
  have b3: "0x80 \<le> ?b3" "?b3 \<le> 0xBF" by simp_all
  have b3m: "?b3 mod 0x40 = (c div 0x40) mod 0x40" using cont_mod [of "c div 0x40"] by simp
  have b4: "0x80 \<le> ?b4" "?b4 \<le> 0xBF" by simp_all
  have b4m: "?b4 mod 0x40 = c mod 0x40" using cont_mod [of c] by simp
  let ?cp2 = "c div 0x40000 * 0x40 + (c div 0x1000) mod 0x40"
  have step2: "utf8_decode_run (c div 0x40000) 3 ?lo ?hi (?b2 # ?b3 # ?b4 # rest)
      = utf8_decode_run ?cp2 2 0x80 0xBF (?b3 # ?b4 # rest)"
    by (subst run_continue [OF _ lo hi]) (simp_all add: b2m del: utf8_decode_run.simps)
  have step3: "utf8_decode_run ?cp2 2 0x80 0xBF (?b3 # ?b4 # rest)
      = utf8_decode_run (?cp2 * 0x40 + (c div 0x40) mod 0x40) 1 0x80 0xBF (?b4 # rest)"
    by (subst run_continue [OF _ b3]) (simp_all add: b3m del: utf8_decode_run.simps)
  have step4: "utf8_decode_run (?cp2 * 0x40 + (c div 0x40) mod 0x40) 1 0x80 0xBF (?b4 # rest)
      = ((?cp2 * 0x40 + (c div 0x40) mod 0x40) * 0x40 + ?b4 mod 0x40)
          # utf8_decode_run 0 0 0x80 0xBF rest"
    by (subst run_continue [OF _ b4]) (simp_all del: utf8_decode_run.simps)
  show ?thesis
    unfolding enc run_lead4 [OF b1] b1m step2 step3 step4 b4m value4 ..
qed

lemma decode_encode_scalar:
  assumes "scalar_value c"
  shows "utf8_decode_run 0 0 0x80 0xBF (utf8_encode_scalar c @ rest)
           = c # utf8_decode_run 0 0 0x80 0xBF rest"
proof -
  from assms have v: "c < 0x110000" "\<not> (0xD800 \<le> c \<and> c \<le> 0xDFFF)"
    by (simp_all add: scalar_value_def)
  consider "c < 0x80" | "0x80 \<le> c" "c < 0x800" | "0x800 \<le> c" "c < 0x10000" | "0x10000 \<le> c"
    by linarith
  then show ?thesis
  proof cases
    case 1
    then show ?thesis by (rule decode_one_byte)
  next
    case 2
    then show ?thesis by (rule decode_two_bytes)
  next
    case 3
    then show ?thesis using v(2) by (rule decode_three_bytes)
  next
    case 4
    then show ?thesis using v(1) by (rule decode_four_bytes)
  qed
qed

lemma decode_encode_scalars:
  "list_all scalar_value cs \<Longrightarrow>
   utf8_decode_run 0 0 0x80 0xBF (concat (map utf8_encode_scalar cs)) = cs"
proof (induction cs)
  case Nil
  show ?case by simp
next
  case (Cons c cs)
  then have "scalar_value c" and "list_all scalar_value cs" by simp_all
  with Cons.IH decode_encode_scalar [of c "concat (map utf8_encode_scalar cs)"]
  show ?case by (simp del: utf8_encode_scalar.simps utf8_decode_run.simps)
qed

section \<open>Code units and scalar values\<close>

lemma pair_value:
  assumes "is_lead c" and "is_trail d"
  shows "of_scalar (0x10000 + (c - 0xD800) * 0x400 + (d - 0xDC00)) = [c, d]"
    and "scalar_value (0x10000 + (c - 0xD800) * 0x400 + (d - 0xDC00))"
    and "0x10000 + (c - 0xD800) * 0x400 + (d - 0xDC00) \<noteq> 0xFEFF"
proof -
  from assms have c: "0xD800 \<le> c" "c \<le> 0xDBFF" and d: "0xDC00 \<le> d" "d \<le> 0xDFFF"
    by (simp_all add: is_lead_def is_trail_def)
  let ?x = "c - 0xD800" and ?y = "d - 0xDC00"
  have x: "?x < 0x400" and y: "?y < 0x400" using c d by simp_all
  have dv: "(?x * 0x400 + ?y) div 0x400 = ?x" using y by simp
  have md: "(?x * 0x400 + ?y) mod 0x400 = ?y" using y by simp
  have "of_scalar (0x10000 + (?x * 0x400 + ?y)) = [0xD800 + ?x, 0xDC00 + ?y]"
    using dv md by simp
  then show "of_scalar (0x10000 + ?x * 0x400 + ?y) = [c, d]"
    using c d by (simp add: add.assoc)
  have "?x * 0x400 + ?y < 0x100000" using x y by simp
  then show "scalar_value (0x10000 + ?x * 0x400 + ?y)"
    by (simp add: scalar_value_def)
  show "0x10000 + ?x * 0x400 + ?y \<noteq> 0xFEFF" by simp
qed

lemma of_to_scalars:
  "paired us \<Longrightarrow> list_all (\<lambda>c. c < 0x10000) us \<Longrightarrow>
   concat (map of_scalar (to_scalars us)) = us \<and> list_all scalar_value (to_scalars us)"
proof (induction us rule: to_scalars.induct)
  case 1
  show ?case by simp
next
  case (2 c)
  then show ?case
    by (auto simp: scalar_value_def is_lead_def is_trail_def)
next
  case (3 c d r)
  show ?case
  proof (cases "is_lead c")
    case True
    with "3.prems" have t: "is_trail d" and p: "paired r" and b: "list_all (\<lambda>c. c < 0x10000) r"
      by simp_all
    from "3.IH"(1) [OF True t p b] pair_value(1,2) [OF True t] True t show ?thesis
      by (simp del: of_scalar.simps)
  next
    case False
    with "3.prems" have nt: "\<not> is_trail c" and p: "paired (d # r)"
      and b: "list_all (\<lambda>c. c < 0x10000) (d # r)" and c: "c < 0x10000"
      by simp_all
    have "scalar_value c"
      using False nt c unfolding scalar_value_def is_lead_def is_trail_def by linarith
    moreover have "of_scalar c = [c]" using c by simp
    ultimately show ?thesis
      using "3.IH"(4) [OF False nt p b] False nt
      by (simp del: of_scalar.simps to_scalars.simps(3) add: to_scalars.simps(3) [of c d r])
  qed
qed

lemma to_scalars_no_bom:
  "paired us \<Longrightarrow> take 1 us \<noteq> [0xFEFF] \<Longrightarrow> take 1 (to_scalars us) \<noteq> [0xFEFF]"
proof (induction us rule: to_scalars.induct)
  case 1
  show ?case by simp
next
  case (2 c)
  then show ?case by simp
next
  case (3 c d r)
  show ?case
  proof (cases "is_lead c")
    case True
    with "3.prems" have t: "is_trail d" by simp
    from pair_value(3) [OF True t] True t show ?thesis by simp
  next
    case False
    with "3.prems" show ?thesis by simp
  qed
qed

section \<open>Bytes of the encoding\<close>

lemma encode_scalar_bytes:
  assumes "scalar_value c"
  shows "list_all (\<lambda>b. b < 256) (utf8_encode_scalar c)"
proof -
  from assms have "c < 0x110000" by (simp add: scalar_value_def)
  then have "c div 0x40000 < 5" by simp
  moreover have "\<And>x::nat. x mod 64 < 128"
  proof -
    fix x :: nat
    have "x mod 64 < 64" by simp
    then show "x mod 64 < 128" by linarith
  qed
  ultimately show ?thesis by (simp add: div_less_iff_less_mult)
qed

lemma encode_scalar_not_bom:
  assumes "scalar_value c" and "c \<noteq> 0xFEFF"
  shows "take 3 (utf8_encode_scalar c @ rest) \<noteq> [0xEF, 0xBB, 0xBF]"
proof
  assume eq: "take 3 (utf8_encode_scalar c @ rest) = [0xEF, 0xBB, 0xBF]"
  consider "c < 0x80" | "0x80 \<le> c" "c < 0x800" | "0x800 \<le> c" "c < 0x10000" | "0x10000 \<le> c"
    by linarith
  then show False
  proof cases
    case 1
    with eq show False by simp
  next
    case 2
    then have "c div 0x40 < 32" by simp
    with eq 2 show False by simp
  next
    case 3
    with eq have "c div 0x1000 = 15" "(c div 0x40) mod 0x40 = 59" "c mod 0x40 = 63"
      by simp_all
    with value3 [of c] have "c = 0xFEFF" by simp
    with assms(2) show False by simp
  next
    case 4
    with eq show False by simp
  qed
qed

lemma strip_bom_encoded:
  assumes "list_all scalar_value cs" and "take 1 cs \<noteq> [0xFEFF]"
  shows "strip_bom (concat (map utf8_encode_scalar cs)) = concat (map utf8_encode_scalar cs)"
proof (cases cs)
  case Nil
  then show ?thesis by (simp add: strip_bom_def)
next
  case (Cons c cs')
  with assms have "scalar_value c" "c \<noteq> 0xFEFF" by simp_all
  from encode_scalar_not_bom [OF this, of "concat (map utf8_encode_scalar cs')"] Cons
  show ?thesis by (simp add: strip_bom_def del: utf8_encode_scalar.simps)
qed

lemma encode_scalar_first:
  assumes "scalar_value c"
  shows "\<exists>b r. utf8_encode_scalar c @ rest = b # r \<and> b < 0xF8"
proof -
  from assms have "c < 0x110000" by (simp add: scalar_value_def)
  then have "c div 0x40000 < 5" by simp
  moreover have "c < 0x800 \<Longrightarrow> c div 0x40 < 32" by simp
  moreover have "c < 0x10000 \<Longrightarrow> c div 0x1000 < 16" by simp
  ultimately show ?thesis by auto
qed

lemma blob_text_encoded:
  assumes "list_all scalar_value cs" and "map unat bs = concat (map utf8_encode_scalar cs)"
  shows "blob_text bs = utf8_decode bs"
proof (cases cs)
  case Nil
  with assms(2) show ?thesis by (simp add: blob_text_def)
next
  case (Cons c cs')
  with assms(1) have "scalar_value c" by simp
  from encode_scalar_first [OF this, of "concat (map utf8_encode_scalar cs')"]
  obtain b r where "utf8_encode_scalar c @ concat (map utf8_encode_scalar cs') = b # r"
    and "b < 0xF8" by blast
  with assms(2) Cons have "map unat bs = b # r" by simp
  with \<open>b < 0xF8\<close> show ?thesis
    by (cases r) (auto simp: blob_text_def)
qed

lemma unat_of_nat_bytes:
  "list_all (\<lambda>b. b < 256) bs \<Longrightarrow> map unat (map of_nat bs :: byte list) = bs"
  by (induction bs) (simp_all add: unat_of_nat)

lemma concat_bytes:
  "list_all scalar_value cs \<Longrightarrow> list_all (\<lambda>b. b < 256) (concat (map utf8_encode_scalar cs))"
  by (induction cs) (simp_all add: encode_scalar_bytes del: utf8_encode_scalar.simps)

lemma units_bound: "list_all (\<lambda>c. c < 0x10000) (map unat (text :: jsstring))"
proof -
  have "\<And>w :: 16 word. unat w < 0x10000"
  proof -
    fix w :: "16 word"
    have "unat w < 2 ^ LENGTH(16)" by (rule unsigned_less)
    then show "unat w < 0x10000" by simp
  qed
  then show ?thesis by (simp add: list_all_iff)
qed

lemma utf8_roundtrip:
  assumes "plain_text text"
  shows "utf8_decode (utf8_encode text) = text" and "blob_text (utf8_encode text) = text"
proof -
  let ?us = "map unat text"
  let ?cs = "to_scalars ?us"
  let ?bs = "concat (map utf8_encode_scalar ?cs)"
  from assms have p: "paired ?us" and nb: "take 1 text \<noteq> [0xFEFF]"
    by (simp_all add: plain_text_def)
  have nb': "take 1 ?us \<noteq> [0xFEFF]"
  proof (cases "text")
    case Nil
    then show ?thesis by simp
  next
    case (Cons w ws)
    with nb have "w \<noteq> 0xFEFF" by simp
    then have "unat w \<noteq> unat (0xFEFF :: 16 word)"
      by (simp only: word_unat_eq_iff [symmetric]) simp
    with Cons show ?thesis by simp
  qed
  note sc = of_to_scalars [OF p units_bound]
  have valid: "list_all scalar_value ?cs" using sc by simp
  have units: "concat (map of_scalar ?cs) = ?us" using sc by simp
  have bytes: "map unat (utf8_encode text) = ?bs"
    unfolding utf8_encode_def using unat_of_nat_bytes [OF concat_bytes [OF valid]] .
  have nobom: "strip_bom ?bs = ?bs"
    using strip_bom_encoded [OF valid to_scalars_no_bom [OF p nb']] .
  have "utf8_decode (utf8_encode text) = map of_nat (concat (map of_scalar ?cs))"
    unfolding utf8_decode_def bytes nobom decode_encode_scalars [OF valid] ..
  also have "\<dots> = map of_nat ?us" unfolding units ..
  also have "\<dots> = text" by (simp add: comp_def)
  finally show "utf8_decode (utf8_encode text) = text" .
  then show "blob_text (utf8_encode text) = text"
    using blob_text_encoded [OF valid bytes] by simp
qed

section \<open>Listing with a depth\<close>

lemma kept_simps [simp]: "kept iF iD (n, KFile) = iF" "kept iF iD (n, KDirectory) = iD"
  by (simp_all add: kept_def)

lemma listed_entry_file:
  "listed_entry pf s path depth iF iD dir (name, KFile)
     = FSEntry name (if path = ''/'' then ''/'' @ name else path @ ''/'' @ name) KFile
         (case fileGetFile s (dir @ [name]) of Inr file \<Rightarrow> Some (length file) | Inl _ \<Rightarrow> None) None"
  by (simp add: listed_entry_def child_path_def)

lemma listed_entry_dir:
  "listed_entry pf s path depth iF iD dir (name, KDirectory)
     = FSEntry name (if path = ''/'' then ''/'' @ name else path @ ''/'' @ name) KDirectory None
         (if depth > 1
          then (case list_dir pf s (if path = ''/'' then ''/'' @ name else path @ ''/'' @ name)
                       (depth - 1) iF iD of
                  Inr children \<Rightarrow> Some children | Inl _ \<Rightarrow> None)
          else None)"
  by (simp add: listed_entry_def child_path_def)

lemma list_loop_eq:
  assumes "\<And>n. (n, KDirectory) \<in> set ents \<Longrightarrow> iD \<Longrightarrow> 1 < depth \<Longrightarrow>
             \<exists>cs. list_dir pf s (child_path path n) (depth - 1) iF iD = Inr cs"
  shows "list_loop pf s path depth iF iD dir ents acc
     = Inr (acc @ map (listed_entry pf s path depth iF iD dir) (filter (kept iF iD) ents))"
  using assms
proof (induction ents arbitrary: acc)
  case Nil
  show ?case by simp
next
  case (Cons x ents)
  obtain name kind where x: "x = (name, kind)" by (cases x)
  have rest: "\<And>acc'. list_loop pf s path depth iF iD dir ents acc'
     = Inr (acc' @ map (listed_entry pf s path depth iF iD dir) (filter (kept iF iD) ents))"
    using Cons.IH Cons.prems by simp
  show ?case
  proof (cases kind)
    case KFile
    then show ?thesis
      unfolding x using rest
      by (cases "fileGetFile s (dir @ [name])"; cases iF)
         (simp_all add: listed_entry_file Let_def)
  next
    case KDirectory
    show ?thesis
    proof (cases "iD \<and> 1 < depth")
      case True
      with Cons.prems [of name] x KDirectory obtain cs where
        "list_dir pf s (child_path path name) (depth - 1) iF iD = Inr cs"
        by auto
      then have "list_dir pf s (if path = ''/'' then ''/'' @ name else path @ ''/'' @ name)
                   (depth - 1) iF iD = Inr cs"
        by (simp add: child_path_def)
      with True KDirectory show ?thesis
        unfolding x using rest
        by (simp add: listed_entry_dir Let_def)
    next
      case False
      with KDirectory show ?thesis
        unfolding x using rest
        by (auto simp: listed_entry_dir Let_def)
    qed
  qed
qed

lemma parts_child_path:
  "valid_name n \<Longrightarrow> parts (child_path path n) = parts path @ [n]"
  using parts_child [of n path] parts_child [of n "''''"]
  by (auto simp: child_path_def parts_def)

lemma list_dir_eq:
  assumes "root_opens pf" and "wf_store s" and "node_at s (parts path) = Some DirE"
    and "dirEntries pf s (parts path) = Inr ents"
    and "\<And>n. (n, KDirectory) \<in> set ents \<Longrightarrow> iD \<Longrightarrow> 1 < depth \<Longrightarrow>
             \<exists>cs. list_dir pf s (child_path path n) (depth - 1) iF iD = Inr cs"
  shows "list_dir pf s path depth iF iD
     = Inr (map (listed_entry pf s path depth iF iD (parts path)) (filter (kept iF iD) ents))"
proof -
  have g: "getDirectoryHandle s [] path False = (Inr (parts path), s)"
    using walk_dirs_existing [OF assms(2), of "[]" "parts path" False] assms(3)
    by (simp add: getDirectoryHandle_parts)
  show ?thesis
    by (subst list_dir.simps)
       (simp add: getDirectory_root_opens [OF assms(1)] g assms(4) list_loop_eq [OF assms(5)])
qed

lemma list_dir_total:
  assumes "root_opens pf" and "wf_store s"
  shows "node_at s (parts path) = Some DirE \<Longrightarrow> \<exists>es. list_dir pf s path depth iF iD = Inr es"
proof (induction "nat depth" arbitrary: depth path)
  case 0
  obtain ents where e: "dirEntries pf s (parts path) = Inr ents"
    using "0.prems" by (simp add: dirEntries_def)
  from 0 have "\<not> 1 < depth" by simp
  then show ?case
    using list_dir_eq [OF assms "0.prems" e, of iD depth iF] by simp
next
  case (Suc n)
  obtain ents where e: "dirEntries pf s (parts path) = Inr ents"
    using Suc.prems by (simp add: dirEntries_def)
  have "\<And>m. (m, KDirectory) \<in> set ents \<Longrightarrow> iD \<Longrightarrow> 1 < depth \<Longrightarrow>
             \<exists>cs. list_dir pf s (child_path path m) (depth - 1) iF iD = Inr cs"
  proof -
    fix m
    assume m: "(m, KDirectory) \<in> set ents"
    then obtain en where en: "map_of s (parts path @ [m]) = Some en" "KDirectory = kind_of en"
      unfolding dirEntries_names(4) [OF e assms(2)] by auto
    then have "en = DirE" by (cases en) simp_all
    with en have d: "node_at s (parts path @ [m]) = Some DirE" by (simp add: node_at_def)
    have "valid_name m" using wf_store_lookup [OF assms(2) en(1)] by simp
    then have p: "parts (child_path path m) = parts path @ [m]" by (rule parts_child_path)
    have "n = nat (depth - 1)" using Suc(2) by simp
    from Suc(1) [OF this, of "child_path path m"] d p
    show "\<exists>cs. list_dir pf s (child_path path m) (depth - 1) iF iD = Inr cs" by simp
  qed
  from list_dir_eq [OF assms Suc.prems e this] show ?case by simp
qed


lemma listed_entry_fields:
  "entry_name (listed_entry pf s path depth iF iD dir (n, k)) = n"
  "entry_kind (listed_entry pf s path depth iF iD dir (n, k)) = k"
  "entry_path (listed_entry pf s path depth iF iD dir (n, k)) = child_path path n"
  by (simp_all add: listed_entry_def)

lemma listed_names:
  "map (\<lambda>e. (entry_name e, entry_kind e)) (map (listed_entry pf s path depth iF iD dir) xs) = xs"
  by (induction xs) (auto simp: listed_entry_fields)

text \<open>
  C7. In a well-formed store, listing the directory at \<open>path\<close> succeeds and returns one
  entry for each child the filters keep, in the order the directory lists them, each
  with the path of the child. A file entry has its size and never \<open>children\<close>. With a
  depth of at most 1 no directory entry has \<open>children\<close>. With a depth of 2 or more every
  directory entry has \<open>children\<close>, and they are the listing of that directory with depth
  - 1: the statement holds for that listing again, so the nesting goes on until the depth
  is used up, and a directory without children has the empty list.
\<close>

theorem list_depth:
  assumes "root_opens pf" and "wf_store s" and "node_at s (parts path) = Some DirE"
    and "dirEntries pf s (parts path) = Inr ents"
  shows "\<exists>es. list_dir pf s path depth iF iD = Inr es
     \<and> map (\<lambda>e. (entry_name e, entry_kind e)) es = filter (kept iF iD) ents
     \<and> (\<forall>e \<in> set es.
          entry_path e = child_path path (entry_name e)
          \<and> parts (entry_path e) = parts path @ [entry_name e]
          \<and> (entry_kind e = KFile \<longrightarrow>
               entry_children e = None
               \<and> (\<exists>c. node_at s (parts (entry_path e)) = Some (FileE c)
                      \<and> entry_size e = Some (length c)))
          \<and> (entry_kind e = KDirectory \<longrightarrow>
               node_at s (parts (entry_path e)) = Some DirE \<and> entry_size e = None
               \<and> (depth \<le> 1 \<longrightarrow> entry_children e = None)
               \<and> (2 \<le> depth \<longrightarrow>
                    (\<exists>cs. entry_children e = Some cs
                       \<and> list_dir pf s (entry_path e) (depth - 1) iF iD = Inr cs
                       \<and> (dirEntries pf s (parts (entry_path e)) = Inr [] \<longrightarrow> cs = [])))))"
proof -
  let ?le = "listed_entry pf s path depth iF iD (parts path)"
  let ?es = "map ?le (filter (kept iF iD) ents)"
  have child: "\<And>n k. (n, k) \<in> set ents \<Longrightarrow>
      valid_name n \<and> parts (child_path path n) = parts path @ [n]
      \<and> (\<exists>en. map_of s (parts path @ [n]) = Some en \<and> node_at s (parts path @ [n]) = Some en
             \<and> k = kind_of en)"
  proof -
    fix n k
    assume "(n, k) \<in> set ents"
    then obtain en where en: "map_of s (parts path @ [n]) = Some en" "k = kind_of en"
      unfolding dirEntries_names(4) [OF assms(4,2)] by auto
    have v: "valid_name n" using wf_store_lookup [OF assms(2) en(1)] by simp
    from en v parts_child_path [OF v, of path]
    show "valid_name n \<and> parts (child_path path n) = parts path @ [n]
      \<and> (\<exists>en. map_of s (parts path @ [n]) = Some en \<and> node_at s (parts path @ [n]) = Some en
             \<and> k = kind_of en)"
      by (simp add: node_at_def)
  qed
  have sub: "\<And>n d. (n, KDirectory) \<in> set ents \<Longrightarrow>
      node_at s (parts (child_path path n)) = Some DirE
      \<and> (\<exists>cs. list_dir pf s (child_path path n) d iF iD = Inr cs
             \<and> (dirEntries pf s (parts (child_path path n)) = Inr [] \<longrightarrow> cs = []))"
  proof -
    fix n d
    assume "(n, KDirectory) \<in> set ents"
    from child [OF this] obtain en where p: "parts (child_path path n) = parts path @ [n]"
      and en: "node_at s (parts path @ [n]) = Some en" "KDirectory = kind_of en"
      by blast
    from en(2) have "en = DirE" by (cases en) simp_all
    with en p have d: "node_at s (parts (child_path path n)) = Some DirE" by simp
    from list_dir_total [OF assms(1,2) d] obtain cs where
      cs: "list_dir pf s (child_path path n) d iF iD = Inr cs" by blast
    have "dirEntries pf s (parts (child_path path n)) = Inr [] \<Longrightarrow> cs = []"
    proof -
      assume e: "dirEntries pf s (parts (child_path path n)) = Inr []"
      from list_dir_eq [OF assms(1,2) d e, of iD d iF] cs show "cs = []" by simp
    qed
    with d cs show "node_at s (parts (child_path path n)) = Some DirE
      \<and> (\<exists>cs. list_dir pf s (child_path path n) d iF iD = Inr cs
             \<and> (dirEntries pf s (parts (child_path path n)) = Inr [] \<longrightarrow> cs = []))"
      by blast
  qed
  have run: "list_dir pf s path depth iF iD = Inr ?es"
    using list_dir_eq [OF assms] sub by blast
  have names: "map (\<lambda>e. (entry_name e, entry_kind e)) ?es = filter (kept iF iD) ents"
    by (rule listed_names)
  have each: "\<forall>e \<in> set ?es.
          entry_path e = child_path path (entry_name e)
          \<and> parts (entry_path e) = parts path @ [entry_name e]
          \<and> (entry_kind e = KFile \<longrightarrow>
               entry_children e = None
               \<and> (\<exists>c. node_at s (parts (entry_path e)) = Some (FileE c)
                      \<and> entry_size e = Some (length c)))
          \<and> (entry_kind e = KDirectory \<longrightarrow>
               node_at s (parts (entry_path e)) = Some DirE \<and> entry_size e = None
               \<and> (depth \<le> 1 \<longrightarrow> entry_children e = None)
               \<and> (2 \<le> depth \<longrightarrow>
                    (\<exists>cs. entry_children e = Some cs
                       \<and> list_dir pf s (entry_path e) (depth - 1) iF iD = Inr cs
                       \<and> (dirEntries pf s (parts (entry_path e)) = Inr [] \<longrightarrow> cs = []))))"
  proof
    fix e
    assume "e \<in> set ?es"
    then obtain n k where nk: "(n, k) \<in> set ents" and e: "e = ?le (n, k)"
      by auto
    note c = child [OF nk]
    show "entry_path e = child_path path (entry_name e)
          \<and> parts (entry_path e) = parts path @ [entry_name e]
          \<and> (entry_kind e = KFile \<longrightarrow>
               entry_children e = None
               \<and> (\<exists>c. node_at s (parts (entry_path e)) = Some (FileE c)
                      \<and> entry_size e = Some (length c)))
          \<and> (entry_kind e = KDirectory \<longrightarrow>
               node_at s (parts (entry_path e)) = Some DirE \<and> entry_size e = None
               \<and> (depth \<le> 1 \<longrightarrow> entry_children e = None)
               \<and> (2 \<le> depth \<longrightarrow>
                    (\<exists>cs. entry_children e = Some cs
                       \<and> list_dir pf s (entry_path e) (depth - 1) iF iD = Inr cs
                       \<and> (dirEntries pf s (parts (entry_path e)) = Inr [] \<longrightarrow> cs = []))))"
    proof (cases k)
      case KFile
      from c obtain en where en: "map_of s (parts path @ [n]) = Some en"
        "node_at s (parts path @ [n]) = Some en" "k = kind_of en" by blast
      with KFile obtain bs where bs: "en = FileE bs" by (cases en) simp_all
      have g: "fileGetFile s (parts path @ [n]) = Inr bs"
        using en(1) bs by (simp add: fileGetFile_def)
      show ?thesis
        unfolding e KFile using c en(2) bs g
        by (simp add: listed_entry_def)
    next
      case KDirectory
      from sub [of n "depth - 1"] nk KDirectory obtain cs where
        d: "node_at s (parts (child_path path n)) = Some DirE"
        and cs: "list_dir pf s (child_path path n) (depth - 1) iF iD = Inr cs"
        and em: "dirEntries pf s (parts (child_path path n)) = Inr [] \<longrightarrow> cs = []"
        by blast
      show ?thesis
        unfolding e KDirectory using c d cs em
        by (simp add: listed_entry_def)
    qed
  qed
  from run names each show ?thesis by blast
qed


lemma wf_nested_store: "wf_store nested_store" and wf_empty_dir_store: "wf_store empty_dir_store"
  by (simp_all add: nested_store_def empty_dir_store_def wf_store_def valid_name_def node_at_def)

lemma list_nested_store:
  "list_dir opfs_page nested_store ''/a'' 1 True True
     = Inr [FSEntry ''b'' ''/a/b'' KDirectory None None]"
  "list_dir opfs_page nested_store ''/a'' 2 True True
     = Inr [FSEntry ''b'' ''/a/b'' KDirectory None
              (Some [FSEntry ''c.txt'' ''/a/b/c.txt'' KFile (Some 2) None])]"
  "list_dir opfs_page empty_dir_store ''/d'' 2 True True
     = Inr [FSEntry ''e'' ''/d/e'' KDirectory None (Some [])]"
  "node_at nested_store (parts ''/a'') = Some DirE"
  "dirEntries opfs_page nested_store (parts ''/a'') = Inr [(''b'', KDirectory)]"
  "node_at empty_dir_store (parts ''/d'') = Some DirE"
  "dirEntries opfs_page empty_dir_store (parts ''/d'') = Inr [(''e'', KDirectory)]"
  "dirEntries opfs_page empty_dir_store (parts ''/d/e'') = Inr []"
  by code_simp+

theorem list_depth_witness:
  "root_opens opfs_page \<and> wf_store nested_store
   \<and> node_at nested_store (parts ''/a'') = Some DirE
   \<and> dirEntries opfs_page nested_store (parts ''/a'') = Inr [(''b'', KDirectory)]
   \<and> list_dir opfs_page nested_store ''/a'' 2 True True
       = Inr [FSEntry ''b'' ''/a/b'' KDirectory None
                (Some [FSEntry ''c.txt'' ''/a/b/c.txt'' KFile (Some 2) None])]
   \<and> list_dir opfs_page nested_store ''/a/b'' 1 True True
       = Inr [FSEntry ''c.txt'' ''/a/b/c.txt'' KFile (Some 2) None]
   \<and> list_dir opfs_page nested_store ''/a'' 1 True True
       = Inr [FSEntry ''b'' ''/a/b'' KDirectory None None]
   \<and> wf_store empty_dir_store
   \<and> node_at empty_dir_store (parts ''/d'') = Some DirE
   \<and> dirEntries opfs_page empty_dir_store (parts ''/d'') = Inr [(''e'', KDirectory)]
   \<and> dirEntries opfs_page empty_dir_store (parts ''/d/e'') = Inr []
   \<and> list_dir opfs_page empty_dir_store ''/d'' 2 True True
       = Inr [FSEntry ''e'' ''/d/e'' KDirectory None (Some [])]
   \<and> list_dir opfs_page empty_dir_store ''/d/e'' 1 True True = Inr []"
proof -
  note l = list_nested_store
  let ?b = "FSEntry ''b'' ''/a/b'' KDirectory None
                (Some [FSEntry ''c.txt'' ''/a/b/c.txt'' KFile (Some 2) None])"
  from list_depth [OF root_opens_page wf_nested_store l(4) l(5), of 2 True True]
  obtain es where es: "list_dir opfs_page nested_store ''/a'' 2 True True = Inr es"
    and each: "\<forall>e \<in> set es. entry_kind e = KDirectory \<longrightarrow>
        ((2::int) \<le> 2 \<longrightarrow> (\<exists>cs. entry_children e = Some cs
             \<and> list_dir opfs_page nested_store (entry_path e) (2 - 1) True True = Inr cs))"
    by blast
  from es l(2) have "es = [?b]" by simp
  with each have inner: "list_dir opfs_page nested_store ''/a/b'' 1 True True
       = Inr [FSEntry ''c.txt'' ''/a/b/c.txt'' KFile (Some 2) None]"
    by simp
  let ?e = "FSEntry ''e'' ''/d/e'' KDirectory None (Some [])"
  from list_depth [OF root_opens_page wf_empty_dir_store l(6) l(7), of 2 True True]
  obtain es' where es': "list_dir opfs_page empty_dir_store ''/d'' 2 True True = Inr es'"
    and each': "\<forall>e \<in> set es'. entry_kind e = KDirectory \<longrightarrow>
        ((2::int) \<le> 2 \<longrightarrow> (\<exists>cs. entry_children e = Some cs
             \<and> list_dir opfs_page empty_dir_store (entry_path e) (2 - 1) True True = Inr cs))"
    by blast
  from es' l(3) have "es' = [?e]" by simp
  with each' have inner': "list_dir opfs_page empty_dir_store ''/d/e'' 1 True True = Inr []"
    by simp
  from root_opens_page wf_nested_store wf_empty_dir_store l inner inner'
  show ?thesis by simp
qed


end
